theory Spec2Isabelle
  imports Complex_Main "HOL-Library.Word"
begin

section \<open>redis-stat: sampling, page-size simulation and histogram binning\<close>

text \<open>
  A shallow embedding of the three analysis routines of \<^verbatim>\<open>redis-stat.c\<close>:
  \<^verbatim>\<open>sampleDataset\<close> (with \<^verbatim>\<open>getSerializedLen\<close>), \<^verbatim>\<open>vmpage\<close> and
  \<^verbatim>\<open>samplesToGraph\<close>.

  \<^item> \<^verbatim>\<open>size_t\<close> is a 64-bit word (LP64); \<open>+\<close>, \<open>-\<close>, \<open>*\<close> wrap and \<open>div\<close>,
    \<open>mod\<close>, \<open>\<le>\<close> are unsigned, as in C.
  \<^item> \<^verbatim>\<open>exit(1)\<close>, a division by zero and an access outside an array are values of
    the type \<open>error\<close>.
  \<^item> A \<^verbatim>\<open>double\<close> is idealised as a \<open>real\<close>; every integer operand is computed
    in its machine type before the conversion, as the source does.
  \<^item> Memory is always available: \<^verbatim>\<open>zmalloc\<close> and \<^verbatim>\<open>zfree\<close> are not modelled, and
    neither is the text printed along the way.
\<close>

type_synonym size_t = "64 word"

datatype error = SourceEmpty | SourceError string | DivideByZero | OutOfBounds


section \<open>sampleDataset\<close>

subsection \<open>The server\<close>

text \<open>
  The reply to \<^verbatim>\<open>RANDOMKEY\<close> is distinguished by its type only: nil, error (with
  its message) or anything else, whose payload is used as the key.
  The reply to \<^verbatim>\<open>DEBUG OBJECT\<close> is either a string, of which only the outcome of
  \<^verbatim>\<open>strstr(.,"serializedlength:")\<close> followed by \<^verbatim>\<open>strtol\<close> matters
  (\<open>None\<close> when the field is absent, else the number converted to \<^verbatim>\<open>size_t\<close>),
  or a reply of another type.
  The server is the sequence of its answers: \<open>src k\<close> holds the replies given in the
  \<open>k\<close>-th pass through the body of the sampling loop.
\<close>

datatype randomkey_reply = REDIS_REPLY_NIL | REDIS_REPLY_ERROR string | REDIS_REPLY_KEY string

datatype debug_reply = REDIS_REPLY_STRING "size_t option" | REDIS_REPLY_OTHER

record round =
  randomkey :: randomkey_reply
  debug_object :: debug_reply

type_synonym source = "nat \<Rightarrow> round"

datatype sample_type = SAMPLE_SERIALIZEDLEN | SAMPLE_TYPE | SAMPLE_REFCOUNT

fun getSerializedLen :: "debug_reply \<Rightarrow> size_t" where
  "getSerializedLen (REDIS_REPLY_STRING None) = 0"
| "getSerializedLen (REDIS_REPLY_STRING (Some sl)) = sl"
| "getSerializedLen REDIS_REPLY_OTHER = 0"

subsection \<open>The sampling loop\<close>

text \<open>
  The first \<^verbatim>\<open>for\<close> loop of \<^verbatim>\<open>sampleDataset\<close>. \<open>k\<close> counts the passes through
  the body, \<open>j\<close> is the loop variable, \<open>samples\<close> holds the slots \<open>0..j-1\<close> written so
  far (slot \<open>j\<close> is the next one written, so the store \<^verbatim>\<open>samples[j] = sl\<close> appends),
  \<open>totsl\<close> is the running total. \<^verbatim>\<open>j--; continue\<close> followed by the loop's
  \<^verbatim>\<open>j++\<close> leaves \<open>j\<close> as it was. The loop has no bound on the number of passes:
  a run that never leaves it is \<open>None\<close>.
\<close>

partial_function (option) sample_loop ::
  "source \<Rightarrow> sample_type \<Rightarrow> int \<Rightarrow> nat \<Rightarrow> int \<Rightarrow> size_t list \<Rightarrow> size_t
     \<Rightarrow> (error + size_t list \<times> size_t) option" where
  "sample_loop src type samplesize k j samples totsl =
     (if j < samplesize then
        (case randomkey (src k) of
           REDIS_REPLY_NIL \<Rightarrow> Some (Inl SourceEmpty)
         | REDIS_REPLY_ERROR msg \<Rightarrow> Some (Inl (SourceError msg))
         | REDIS_REPLY_KEY key \<Rightarrow>
             (if type = SAMPLE_SERIALIZEDLEN then
                (if getSerializedLen (debug_object (src k)) = 0
                 then sample_loop src type samplesize (k + 1) j samples totsl
                 else sample_loop src type samplesize (k + 1) (j + 1)
                        (samples @ [getSerializedLen (debug_object (src k))])
                        (totsl + getSerializedLen (debug_object (src k))))
              else sample_loop src type samplesize (k + 1) (j + 1) (samples @ [0]) totsl))
      else Some (Inr (samples, totsl)))"

subsection \<open>Average and standard deviation\<close>

text \<open>
  \<^verbatim>\<open>totsl/config.samplesize\<close> divides a \<^verbatim>\<open>size_t\<close> by an \<^verbatim>\<open>int\<close>: the
  \<^verbatim>\<open>int\<close> is converted to \<^verbatim>\<open>size_t\<close> and the division is the unsigned integer
  division. \<^verbatim>\<open>delta\<close> is a \<^verbatim>\<open>long\<close>; its square, added to the \<^verbatim>\<open>size_t\<close>
  \<^verbatim>\<open>deltasum\<close>, has the bits of the product of the 64-bit words.
\<close>

definition to_size_t :: "int \<Rightarrow> size_t" where
  "to_size_t n = word_of_int n"

fun deltasum_loop :: "size_t \<Rightarrow> size_t list \<Rightarrow> size_t \<Rightarrow> size_t" where
  "deltasum_loop avg [] deltasum = deltasum"
| "deltasum_loop avg (s # samples) deltasum =
     (let delta = avg - s in deltasum_loop avg samples (deltasum + delta * delta))"

record stats =
  samples_of :: "size_t list"
  average :: size_t
  variance :: size_t
  stddev :: real

definition sample_stats :: "int \<Rightarrow> size_t list \<Rightarrow> size_t \<Rightarrow> error + stats" where
  "sample_stats samplesize samples totsl =
     (if to_size_t samplesize = 0 then Inl DivideByZero
      else
        let avg = totsl div to_size_t samplesize;
            deltasum = deltasum_loop avg samples 0
        in Inr \<lparr> samples_of = samples, average = avg,
                 variance = deltasum div to_size_t samplesize,
                 stddev = sqrt (real (unat (deltasum div to_size_t samplesize))) \<rparr>)"

definition sampleDataset :: "source \<Rightarrow> sample_type \<Rightarrow> int \<Rightarrow> (error + stats) option" where
  "sampleDataset src type samplesize =
     (case sample_loop src type samplesize 0 0 [] 0 of
        None \<Rightarrow> None
      | Some (Inl e) \<Rightarrow> Some (Inl e)
      | Some (Inr (samples, totsl)) \<Rightarrow> Some (sample_stats samplesize samples totsl))"

subsection \<open>Vocabulary for statements about the server\<close>

text \<open>
  \<open>is_key r\<close>: the \<^verbatim>\<open>RANDOMKEY\<close> reply of the round is neither nil nor an error.
  \<open>fills_slot type r\<close>: the round stores a sample (its size is not discarded).
  \<open>replay sizes\<close> is a server that always has a key and reports the sizes of the list
  \<open>sizes\<close> in turn, over and over; \<open>sizes_then_zero sizes\<close> reports them once and the
  size 0 ever after; \<open>empty_after n src\<close> answers as \<open>src\<close> for \<open>n\<close> rounds and is empty
  from then on.
  \<open>reported_sizes src k K\<close> lists, in the order of the rounds \<open>k..K-1\<close>, the sizes the
  server reports that are not zero.
\<close>

definition is_key :: "round \<Rightarrow> bool" where
  "is_key r = (case randomkey r of REDIS_REPLY_KEY key \<Rightarrow> True | _ \<Rightarrow> False)"

definition fills_slot :: "sample_type \<Rightarrow> round \<Rightarrow> bool" where
  "fills_slot type r = (type \<noteq> SAMPLE_SERIALIZEDLEN \<or> getSerializedLen (debug_object r) \<noteq> 0)"

definition replay :: "size_t list \<Rightarrow> source" where
  "replay sizes k =
     \<lparr> randomkey = REDIS_REPLY_KEY ''key'',
       debug_object = REDIS_REPLY_STRING (Some (sizes ! (k mod length sizes))) \<rparr>"

definition empty_after :: "nat \<Rightarrow> source \<Rightarrow> source" where
  "empty_after n src k =
     (if k < n then src k
      else \<lparr> randomkey = REDIS_REPLY_NIL, debug_object = REDIS_REPLY_OTHER \<rparr>)"

definition sizes_then_zero :: "size_t list \<Rightarrow> source" where
  "sizes_then_zero sizes k =
     \<lparr> randomkey = REDIS_REPLY_KEY ''key'',
       debug_object = REDIS_REPLY_STRING (Some (if k < length sizes then sizes ! k else 0)) \<rparr>"

definition reported_sizes :: "source \<Rightarrow> nat \<Rightarrow> nat \<Rightarrow> size_t list" where
  "reported_sizes src k K =
     filter (\<lambda>sl. sl \<noteq> 0) (map (\<lambda>i. getSerializedLen (debug_object (src i))) [k..<K])"


section \<open>vmpage\<close>

text \<open>
  \<^verbatim>\<open>VMPAGE_PAGES\<close> is the number of pages of every simulation. \<^verbatim>\<open>vmpage\<close> copies it
  into the local \<^verbatim>\<open>totpages\<close>; the functions below take \<open>totpages\<close> as an argument
  and \<open>vmpage\<close> passes \<open>VMPAGE_PAGES\<close>.

  \<^verbatim>\<open>random()\<close> returns a \<^verbatim>\<open>long\<close> between 0 and \<open>2^31 - 1\<close>: a 31-bit word. The
  generator is the stream \<open>rnd\<close> of its results; the field \<open>calls\<close> of the state counts
  the calls made so far.
\<close>

definition VMPAGE_PAGES :: size_t where
  "VMPAGE_PAGES = 1000000"

type_synonym rand = "nat \<Rightarrow> 31 word"

record sim =
  pages :: "8 word list"
  used_pages :: size_t
  stored_bytes :: size_t
  calls :: nat

definition init_sim :: "size_t \<Rightarrow> nat \<Rightarrow> sim" where
  "init_sim totpages k =
     \<lparr> pages = replicate (unat totpages) 0, used_pages = 0, stored_bytes = 0, calls = k \<rparr>"

text \<open>
  \<^verbatim>\<open>for (i = off; i < off+pages_needed; i++) if (pages[i] != 0) break;\<close> with
  \<open>e = off+pages_needed\<close> computed in \<^verbatim>\<open>size_t\<close>. The result is the final \<open>i\<close>; a read
  of \<^verbatim>\<open>pages[i]\<close> at or beyond \<open>totpages\<close> is \<open>OutOfBounds\<close>.
\<close>

function scan_free :: "8 word list \<Rightarrow> size_t \<Rightarrow> size_t \<Rightarrow> error + size_t" where
  "scan_free pgs i e =
     (if i < e then
        (if length pgs \<le> unat i then Inl OutOfBounds
         else if pgs ! unat i \<noteq> 0 then Inr i
         else scan_free pgs (i + 1) e)
      else Inr i)"
  by pat_completeness auto
termination
proof (relation "measure (\<lambda>(pgs, i, e). unat e - unat i)")
  show "wf (measure (\<lambda>(pgs, i, e). unat e - unat i))" by simp
next
  fix pgs :: "8 word list" and i e :: size_t
  assume "i < e"
  then have lt: "unat i < unat e" by (simp add: word_less_nat_alt)
  have "unat e < 2 ^ 64" using unsigned_less [of e] by simp
  with lt have "unat i + 1 < 2 ^ 64" by simp
  then have "unat (i + 1) = unat i + 1" by (simp add: unat_word_ariths)
  with lt show "((pgs, i + 1, e), (pgs, i, e)) \<in> measure (\<lambda>(pgs, i, e). unat e - unat i)"
    by simp
qed

declare scan_free.simps [simp del]

text \<open>
  \<^verbatim>\<open>memset(pages+off,1,pages_needed)\<close>. It is called only after the scan has read the
  same \<open>n\<close> entries, so it stays inside the table.
\<close>

definition memset :: "8 word list \<Rightarrow> nat \<Rightarrow> 8 word \<Rightarrow> nat \<Rightarrow> 8 word list" where
  "memset pgs off c n = take off pgs @ replicate n c @ drop (off + n) pgs"

text \<open>
  The loop \<^verbatim>\<open>for(j = 0; j < 200; j++)\<close>; the argument \<open>n\<close> is the number of tries left,
  \<open>200 - j\<close>. \<open>Placed\<close> is the \<^verbatim>\<open>break\<close> after a placement, \<open>Exhausted\<close> is
  \<^verbatim>\<open>j == 200\<close>. \<^verbatim>\<open>random()%(totpages-(pages_needed-1))\<close> is computed in
  \<^verbatim>\<open>size_t\<close>; a zero modulus is a division by zero.
\<close>

datatype outcome = Placed | Exhausted

fun attempts ::
  "rand \<Rightarrow> size_t \<Rightarrow> size_t \<Rightarrow> size_t \<Rightarrow> nat \<Rightarrow> sim \<Rightarrow> error + outcome \<times> sim" where
  "attempts rnd totpages pages_needed bytes_needed 0 st = Inr (Exhausted, st)"
| "attempts rnd totpages pages_needed bytes_needed (Suc n) st =
     (if totpages - (pages_needed - 1) = 0 then Inl DivideByZero
      else
        let off = ucast (rnd (calls st)) mod (totpages - (pages_needed - 1));
            st = st\<lparr>calls := calls st + 1\<rparr>
        in case scan_free (pages st) off (off + pages_needed) of
             Inl e \<Rightarrow> Inl e
           | Inr i \<Rightarrow>
               if i = off + pages_needed
               then Inr (Placed,
                      st\<lparr>pages := memset (pages st) (unat off) 1 (unat pages_needed),
                         used_pages := used_pages st + pages_needed,
                         stored_bytes := stored_bytes st + bytes_needed\<rparr>)
               else attempts rnd totpages pages_needed bytes_needed n st)"

text \<open>
  One pass through the body of \<^verbatim>\<open>while(1)\<close>: draw the sample
  \<^verbatim>\<open>samples[random() % config.samplesize]\<close>, round its size up to pages, try to place
  it. \<^verbatim>\<open>%\<close> on a non-negative \<^verbatim>\<open>long\<close> and an \<^verbatim>\<open>int\<close> is the remainder by the
  absolute value; \<open>pagesize\<close> is converted to \<^verbatim>\<open>size_t\<close>.
\<close>

definition place_item ::
  "rand \<Rightarrow> size_t list \<Rightarrow> int \<Rightarrow> int \<Rightarrow> size_t \<Rightarrow> sim \<Rightarrow> error + outcome \<times> sim" where
  "place_item rnd samples samplesize pagesize totpages st =
     (if samplesize = 0 then Inl DivideByZero
      else
        let r = unat (rnd (calls st)) mod nat \<bar>samplesize\<bar>;
            st = st\<lparr>calls := calls st + 1\<rparr>
        in if length samples \<le> r then Inl OutOfBounds
           else if to_size_t pagesize = 0 then Inl DivideByZero
           else
             let bytes_needed = samples ! r;
                 pages_needed = (bytes_needed + (to_size_t pagesize - 1)) div to_size_t pagesize
             in attempts rnd totpages pages_needed bytes_needed 200 st)"

text \<open>
  The loop \<^verbatim>\<open>while(1)\<close> of one candidate page size. It has no bound of its own: a run
  that never leaves it is \<open>None\<close>.
\<close>

partial_function (option) fill_pages ::
  "rand \<Rightarrow> size_t list \<Rightarrow> int \<Rightarrow> int \<Rightarrow> size_t \<Rightarrow> sim \<Rightarrow> (error + sim) option" where
  "fill_pages rnd samples samplesize pagesize totpages st =
     (case place_item rnd samples samplesize pagesize totpages st of
        Inl e \<Rightarrow> Some (Inl e)
      | Inr (Placed, st') \<Rightarrow> fill_pages rnd samples samplesize pagesize totpages st'
      | Inr (Exhausted, st') \<Rightarrow> Some (Inr st'))"

declare fill_pages.simps [code]

text \<open>
  The score: \<^verbatim>\<open>totpages*pagesize\<close> is a \<^verbatim>\<open>size_t\<close> product, the rest is computed in
  \<^verbatim>\<open>double\<close>.
\<close>

definition score_of :: "size_t \<Rightarrow> size_t \<Rightarrow> int \<Rightarrow> real" where
  "score_of totpages stored pagesize =
     (real (unat stored) / real (unat totpages)) *
     ((real (unat stored) * 100) / real (unat (totpages * to_size_t pagesize)))"

text \<open>\<^verbatim>\<open>if (bestpagesize == 0 || bestscore < score)\<close>.\<close>

definition select_best :: "int \<Rightarrow> real \<Rightarrow> int \<Rightarrow> real \<Rightarrow> int \<times> real" where
  "select_best bestpagesize bestscore pagesize score =
     (if bestpagesize = 0 \<or> bestscore < score then (pagesize, score)
      else (bestpagesize, bestscore))"

text \<open>
  What \<^verbatim>\<open>vmpage\<close> knows after a number of candidates: the best page size and score so
  far, the line of every candidate tested (page size, totals, score) in the order tested,
  and the position reached in the random stream.
\<close>

record candidate =
  c_pagesize :: int
  c_stored_bytes :: size_t
  c_used_pages :: size_t
  c_score :: real

record vmpage_result =
  bestpagesize_of :: int
  bestscore_of :: real
  candidates :: "candidate list"
  calls_of :: nat

definition vmpage_start :: vmpage_result where
  "vmpage_start = \<lparr> bestpagesize_of = 0, bestscore_of = 0, candidates = [], calls_of = 0 \<rparr>"

text \<open>
  \<^verbatim>\<open>for (pagesize = 8; pagesize <= 1024*64; pagesize*=2)\<close>: a fresh table for every
  candidate, the simulation, the score and the selection.
\<close>

partial_function (option) vmpage_loop ::
  "size_t \<Rightarrow> rand \<Rightarrow> size_t list \<Rightarrow> int \<Rightarrow> int \<Rightarrow> vmpage_result
     \<Rightarrow> (error + vmpage_result) option" where
  "vmpage_loop totpages rnd samples samplesize pagesize res =
     (if pagesize \<le> 1024 * 64 then
        (case fill_pages rnd samples samplesize pagesize totpages
                (init_sim totpages (calls_of res)) of
           None \<Rightarrow> None
         | Some (Inl e) \<Rightarrow> Some (Inl e)
         | Some (Inr st) \<Rightarrow>
             (let score = score_of totpages (stored_bytes st) pagesize;
                  best = select_best (bestpagesize_of res) (bestscore_of res) pagesize score
              in vmpage_loop totpages rnd samples samplesize (pagesize * 2)
                   \<lparr> bestpagesize_of = fst best, bestscore_of = snd best,
                     candidates = candidates res @
                       [\<lparr> c_pagesize = pagesize, c_stored_bytes = stored_bytes st,
                          c_used_pages = used_pages st, c_score = score \<rparr>],
                     calls_of = calls st \<rparr>))
      else Some (Inr res))"

definition vmpage :: "source \<Rightarrow> int \<Rightarrow> rand \<Rightarrow> (error + vmpage_result) option" where
  "vmpage src samplesize rnd =
     (case sampleDataset src SAMPLE_SERIALIZEDLEN samplesize of
        None \<Rightarrow> None
      | Some (Inl e) \<Rightarrow> Some (Inl e)
      | Some (Inr st) \<Rightarrow>
          vmpage_loop VMPAGE_PAGES rnd (samples_of st) samplesize 8 vmpage_start)"

subsection \<open>Vocabulary for statements about the simulation\<close>

text \<open>
  \<open>occupied pgs\<close> counts the pages marked used. \<open>sim_inv\<close> relates the totals of a state
  to its table. \<open>placements n\<close> is the state after \<open>n\<close> accepted placements, if the run
  gets that far. \<open>select_candidate\<close> is the selection applied to a candidate line.
  \<open>page_sizes_from p\<close> follows the words of the specification: the page sizes
  \<open>p, 2p, 4p, \<dots>\<close> obtained by doubling until 65536 is exceeded.
  \<open>filling_stream n\<close> is a random stream that draws the first sample and the offsets
  \<open>0, 1, 2, \<dots>\<close> in turn, and the second sample at its call number \<open>2n\<close>;
  \<open>filled totpages i\<close> is the state in which the first \<open>i\<close> pages hold one item of
  8 bytes each.
\<close>

definition occupied :: "8 word list \<Rightarrow> nat" where
  "occupied pgs = length (filter (\<lambda>p. p \<noteq> 0) pgs)"

definition sim_inv :: "size_t \<Rightarrow> int \<Rightarrow> sim \<Rightarrow> bool" where
  "sim_inv totpages pagesize st =
     (length (pages st) = unat totpages \<and>
      unat (used_pages st) = occupied (pages st) \<and>
      uint (stored_bytes st) \<le> uint (used_pages st) * pagesize)"

fun placements ::
  "rand \<Rightarrow> size_t list \<Rightarrow> int \<Rightarrow> int \<Rightarrow> size_t \<Rightarrow> nat \<Rightarrow> sim \<Rightarrow> sim option" where
  "placements rnd samples samplesize pagesize totpages 0 st = Some st"
| "placements rnd samples samplesize pagesize totpages (Suc n) st =
     (case place_item rnd samples samplesize pagesize totpages st of
        Inr (Placed, st') \<Rightarrow> placements rnd samples samplesize pagesize totpages n st'
      | _ \<Rightarrow> None)"

definition select_candidate :: "candidate \<Rightarrow> int \<times> real \<Rightarrow> int \<times> real" where
  "select_candidate c best = select_best (fst best) (snd best) (c_pagesize c) (c_score c)"

function page_sizes_from :: "int \<Rightarrow> int list" where
  "page_sizes_from pagesize =
     (if 0 < pagesize \<and> pagesize \<le> 1024 * 64
      then pagesize # page_sizes_from (pagesize * 2) else [])"
  by pat_completeness auto
termination
  by (relation "measure (\<lambda>pagesize. nat (1024 * 64 + 1 - pagesize))") auto

declare page_sizes_from.simps [simp del]

definition filling_stream :: "nat \<Rightarrow> rand" where
  "filling_stream n k = (if k = 2 * n then 1 else if even k then 0 else of_nat (k div 2))"

definition filled :: "size_t \<Rightarrow> nat \<Rightarrow> sim" where
  "filled totpages i =
     \<lparr> pages = replicate i 1 @ replicate (unat totpages - i) 0,
       used_pages = of_nat i, stored_bytes = of_nat (8 * i), calls = 2 * i \<rparr>"


section \<open>samplesToGraph\<close>

text \<open>
  The scale kinds are the constants \<^verbatim>\<open>SCALE_*\<close>; \<^verbatim>\<open>ondiskSize\<close> passes
  \<^verbatim>\<open>SCALE_POWEROFTWO\<close> or \<^verbatim>\<open>SCALE_LINEAR_AUTO\<close>.
\<close>

datatype scale = SCALE_POWEROFTWO | SCALE_LINEAR_SMALL | SCALE_LINEAR_MED
  | SCALE_LINEAR_LARGE | SCALE_LINEAR_AUTO

definition GRAPH_ROWS :: nat where
  "GRAPH_ROWS = 20"

definition GRAPH_BAR_LEN :: nat where
  "GRAPH_BAR_LEN = 50"

text \<open>
  Best linear scale auto detection: the scan over the samples, with its \<^verbatim>\<open>break\<close>.
  A \<^verbatim>\<open>size_t\<close> sample is compared with the \<^verbatim>\<open>int\<close> constants as an unsigned
  number.
\<close>

fun auto_scan :: "scale \<Rightarrow> size_t list \<Rightarrow> scale" where
  "auto_scan scaletype [] = scaletype"
| "auto_scan scaletype (s # samples) =
     (let scaletype =
        (if scaletype = SCALE_LINEAR_SMALL \<and> s > of_nat (1 * GRAPH_ROWS)
         then SCALE_LINEAR_MED else scaletype)
      in if scaletype = SCALE_LINEAR_MED \<and> s > of_nat (5 * GRAPH_ROWS)
         then SCALE_LINEAR_LARGE
         else auto_scan scaletype samples)"

definition resolve_scale :: "scale \<Rightarrow> size_t list \<Rightarrow> scale" where
  "resolve_scale scaletype samples =
     (if scaletype = SCALE_LINEAR_AUTO then auto_scan SCALE_LINEAR_SMALL samples else scaletype)"

text \<open>
  The scale table. The \<^verbatim>\<open>switch\<close> has no case for \<^verbatim>\<open>SCALE_LINEAR_AUTO\<close>: the
  entry keeps what the uninitialised array \<open>scale0\<close> held. \<^verbatim>\<open>pow(2,j)\<close> is exact for
  \<open>j < 20\<close>.
\<close>

definition init_scale :: "scale \<Rightarrow> size_t list \<Rightarrow> size_t list" where
  "init_scale scaletype scale0 =
     map (\<lambda>j. case scaletype of
                 SCALE_POWEROFTWO \<Rightarrow> 2 ^ j
               | SCALE_LINEAR_SMALL \<Rightarrow> of_nat (j + 1)
               | SCALE_LINEAR_MED \<Rightarrow> of_nat ((j + 1) * 5)
               | SCALE_LINEAR_LARGE \<Rightarrow> of_nat ((j + 1) * 50)
               | SCALE_LINEAR_AUTO \<Rightarrow> scale0 ! j)
         [0..<GRAPH_ROWS]"

text \<open>
  The binning loop \<^verbatim>\<open>while (i > 0 && scale[i-1] >= samples[j]) i--\<close>, started at
  \<^verbatim>\<open>GRAPH_ROWS-1\<close>, and the increment \<^verbatim>\<open>freq[i]++\<close>.
\<close>

fun bucket_index :: "size_t list \<Rightarrow> size_t \<Rightarrow> nat \<Rightarrow> nat" where
  "bucket_index scale s 0 = 0"
| "bucket_index scale s (Suc i) = (if scale ! i \<ge> s then bucket_index scale s i else Suc i)"

definition count_sample :: "size_t list \<Rightarrow> size_t \<Rightarrow> size_t list \<Rightarrow> size_t list" where
  "count_sample scale s freq =
     (let i = bucket_index scale s (GRAPH_ROWS - 1) in freq[i := freq ! i + 1])"

definition count_samples :: "size_t list \<Rightarrow> size_t list \<Rightarrow> size_t list" where
  "count_samples scale samples = fold (count_sample scale) samples (replicate GRAPH_ROWS 0)"

text \<open>
  \<^verbatim>\<open>for (high = GRAPH_ROWS-1; high > 0; high--) if (freq[high]) break;\<close> and the loop
  computing \<^verbatim>\<open>max\<close> and \<^verbatim>\<open>sum\<close> over the entries \<open>0..high\<close>.
\<close>

fun highest :: "size_t list \<Rightarrow> nat \<Rightarrow> nat" where
  "highest freq 0 = 0"
| "highest freq (Suc h) = (if freq ! Suc h \<noteq> 0 then Suc h else highest freq h)"

definition max_freq :: "size_t list \<Rightarrow> nat \<Rightarrow> size_t" where
  "max_freq freq high = fold (\<lambda>j m. if m < freq ! j then freq ! j else m) [0..<Suc high] 0"

definition sum_freq :: "size_t list \<Rightarrow> nat \<Rightarrow> size_t" where
  "sum_freq freq high = fold (\<lambda>j s. s + freq ! j) [0..<Suc high] 0"

text \<open>
  One printed line: the label \<^verbatim>\<open>"<= %ld"\<close> or \<^verbatim>\<open>">  %ld"\<close> with its number, the
  bar of \<open>barlen\<close> dashes and the percentage. For \<open>j = high\<close> the label reads
  \<^verbatim>\<open>scale[j-1]\<close>, which lies before the table when \<open>j = 0\<close>; the bar is written into
  a buffer of \<^verbatim>\<open>GRAPH_BAR_LEN+1\<close> characters; \<^verbatim>\<open>(freq[j]*GRAPH_BAR_LEN)/max\<close> is
  an integer division.
\<close>

datatype label = LessEq int | Greater int

record row =
  label :: label
  bar :: string
  percent :: real

definition graph_row ::
  "size_t list \<Rightarrow> size_t list \<Rightarrow> nat \<Rightarrow> size_t \<Rightarrow> size_t \<Rightarrow> nat \<Rightarrow> error + row" where
  "graph_row scale freq high maxf sumf j =
     (if j = high \<and> j = 0 then Inl OutOfBounds
      else if maxf = 0 then Inl DivideByZero
      else if GRAPH_BAR_LEN < unat ((freq ! j * of_nat GRAPH_BAR_LEN) div maxf) then Inl OutOfBounds
      else Inr \<lparr> label = (if j \<noteq> high then LessEq (sint (scale ! j))
                          else Greater (sint (scale ! (j - 1)))),
                 bar = replicate (unat ((freq ! j * of_nat GRAPH_BAR_LEN) div maxf)) CHR ''-'',
                 percent = real (unat (freq ! j)) * 100 / real (unat sumf) \<rparr>)"

fun graph_rows ::
  "size_t list \<Rightarrow> size_t list \<Rightarrow> nat \<Rightarrow> size_t \<Rightarrow> size_t \<Rightarrow> nat list \<Rightarrow> error + row list" where
  "graph_rows scale freq high maxf sumf [] = Inr []"
| "graph_rows scale freq high maxf sumf (j # js) =
     (case graph_row scale freq high maxf sumf j of
        Inl e \<Rightarrow> Inl e
      | Inr r \<Rightarrow>
          (case graph_rows scale freq high maxf sumf js of
             Inl e \<Rightarrow> Inl e
           | Inr rs \<Rightarrow> Inr (r # rs)))"

definition samplesToGraph :: "size_t list \<Rightarrow> scale \<Rightarrow> size_t list \<Rightarrow> error + row list" where
  "samplesToGraph samples scaletype scale0 =
     (let scale = init_scale (resolve_scale scaletype samples) scale0;
          freq = count_samples scale samples;
          high = highest freq (GRAPH_ROWS - 1)
      in graph_rows scale freq high (max_freq freq high) (sum_freq freq high) [0..<Suc high])"


section \<open>Properties of sampleDataset\<close>

subsection \<open>Unfolding the loop\<close>

lemma sample_loop_exit:
  "\<not> j < n \<Longrightarrow> sample_loop src ty n k j s t = Some (Inr (s, t))"
  by (subst sample_loop.simps) simp

lemma sample_loop_nil:
  "j < n \<Longrightarrow> randomkey (src k) = REDIS_REPLY_NIL \<Longrightarrow>
     sample_loop src ty n k j s t = Some (Inl SourceEmpty)"
  by (subst sample_loop.simps) simp

lemma sample_loop_error:
  "j < n \<Longrightarrow> randomkey (src k) = REDIS_REPLY_ERROR msg \<Longrightarrow>
     sample_loop src ty n k j s t = Some (Inl (SourceError msg))"
  by (subst sample_loop.simps) simp

lemma sample_loop_step:
  "j < n \<Longrightarrow> is_key (src k) \<Longrightarrow>
   sample_loop src ty n k j s t =
     (if fills_slot ty (src k)
      then sample_loop src ty n (Suc k) (j + 1)
             (s @ [if ty = SAMPLE_SERIALIZEDLEN then getSerializedLen (debug_object (src k)) else 0])
             (if ty = SAMPLE_SERIALIZEDLEN then t + getSerializedLen (debug_object (src k)) else t)
      else sample_loop src ty n (Suc k) j s t)"
  by (subst sample_loop.simps)
     (auto simp: is_key_def fills_slot_def split: randomkey_reply.splits)

lemma sample_loop_zero:
  "j < n \<Longrightarrow> is_key (src k) \<Longrightarrow> getSerializedLen (debug_object (src k)) = 0 \<Longrightarrow>
   sample_loop src SAMPLE_SERIALIZEDLEN n k j s t =
   sample_loop src SAMPLE_SERIALIZEDLEN n (Suc k) j s t"
  by (simp add: sample_loop_step fills_slot_def)

lemma sample_loop_nonzero:
  "j < n \<Longrightarrow> is_key (src k) \<Longrightarrow> getSerializedLen (debug_object (src k)) \<noteq> 0 \<Longrightarrow>
   sample_loop src SAMPLE_SERIALIZEDLEN n k j s t =
   sample_loop src SAMPLE_SERIALIZEDLEN n (Suc k) (j + 1)
     (s @ [getSerializedLen (debug_object (src k))]) (t + getSerializedLen (debug_object (src k)))"
  by (simp add: sample_loop_step fills_slot_def)

text \<open>
  As long as every reply is a key and fewer than \<open>samplesize\<close> slots are filled, the loop
  is still running after \<open>d\<close> further passes.
\<close>

lemma sample_loop_advance:
  "\<forall>i. k \<le> i \<and> i < k + d \<longrightarrow> is_key (src i) \<Longrightarrow>
   j + int (length (filter (\<lambda>i. fills_slot ty (src i)) [k..<k + d])) < n \<Longrightarrow>
   \<exists>s' t'. sample_loop src ty n k j s t =
      sample_loop src ty n (k + d)
        (j + int (length (filter (\<lambda>i. fills_slot ty (src i)) [k..<k + d]))) s' t'"
proof (induction d arbitrary: k j s t)
  case 0
  then show ?case by auto
next
  case (Suc d)
  have key: "is_key (src k)" using Suc.prems(1) by simp
  have up: "[k..<k + Suc d] = k # [Suc k..<Suc k + d]" by (simp add: upt_rec)
  let ?c = "int (length (filter (\<lambda>i. fills_slot ty (src i)) [Suc k..<Suc k + d]))"
  have keys': "\<forall>i. Suc k \<le> i \<and> i < Suc k + d \<longrightarrow> is_key (src i)"
    using Suc.prems(1) by simp
  show ?case
  proof (cases "fills_slot ty (src k)")
    case True
    then have cnt: "int (length (filter (\<lambda>i. fills_slot ty (src i)) [k..<k + Suc d])) = 1 + ?c"
      unfolding up by simp
    have lt: "(j + 1) + ?c < n" using Suc.prems(2) cnt by simp
    then have jn: "j < n" by linarith
    from True key jn obtain s1 t1 where
      step: "sample_loop src ty n k j s t = sample_loop src ty n (Suc k) (j + 1) s1 t1"
      by (simp add: sample_loop_step)
    from Suc.IH [OF keys' lt, of s1 t1] obtain s' t' where
      "sample_loop src ty n (Suc k) (j + 1) s1 t1 =
       sample_loop src ty n (Suc k + d) (j + 1 + ?c) s' t'"
      by blast
    with step cnt show ?thesis by (auto simp: add.assoc)
  next
    case False
    then have cnt: "int (length (filter (\<lambda>i. fills_slot ty (src i)) [k..<k + Suc d])) = ?c"
      unfolding up by simp
    have lt: "j + ?c < n" using Suc.prems(2) cnt by simp
    then have jn: "j < n" by linarith
    from False key jn have
      step: "sample_loop src ty n k j s t = sample_loop src ty n (Suc k) j s t"
      by (simp add: sample_loop_step)
    from Suc.IH [OF keys' lt, of s t] obtain s' t' where
      "sample_loop src ty n (Suc k) j s t = sample_loop src ty n (Suc k + d) (j + ?c) s' t'"
      by blast
    with step cnt show ?thesis by auto
  qed
qed

text \<open>Whatever the loop returns extends the slots it started from.\<close>

lemma sample_loop_result:
  assumes "sample_loop src0 ty0 n0 k0 j0 s0 t0 = Some y0"
  shows "\<forall>samples totsl. y0 = Inr (samples, totsl) \<longrightarrow>
      (\<exists>new. samples = s0 @ new \<and> totsl = t0 + sum_list new \<and> length new = nat (n0 - j0))"
proof (rule sample_loop.raw_induct [where P = "\<lambda>src ty n k j s t y.
      \<forall>samples totsl. y = Inr (samples, totsl) \<longrightarrow>
      (\<exists>new. samples = s @ new \<and> totsl = t + sum_list new \<and> length new = nat (n - j))",
      OF _ assms], goal_cases)
  case (1 sample_loop src type samplesize k j samples totsl y)
  show ?case
  proof (cases "j < samplesize")
    case False
    then show ?thesis using 1(2) by auto
  next
    case True
    show ?thesis
    proof (cases "randomkey (src k)")
      case REDIS_REPLY_NIL
      then show ?thesis using True 1(2) by auto
    next
      case (REDIS_REPLY_ERROR msg)
      then show ?thesis using True 1(2) by auto
    next
      case (REDIS_REPLY_KEY key)
      show ?thesis
      proof (intro allI impI)
        fix ss tt assume y: "y = Inr (ss, tt)"
        let ?sl = "getSerializedLen (debug_object (src k))"
        consider (z) "type = SAMPLE_SERIALIZEDLEN" "?sl = 0"
          | (nz) "type = SAMPLE_SERIALIZEDLEN" "?sl \<noteq> 0"
          | (other) "type \<noteq> SAMPLE_SERIALIZEDLEN" by blast
        then show "\<exists>new. ss = samples @ new \<and> tt = totsl + sum_list new \<and>
                     length new = nat (samplesize - j)"
        proof cases
          case z
          then have "sample_loop src type samplesize (k + 1) j samples totsl = Some y"
            using 1(2) True REDIS_REPLY_KEY by simp
          from 1(1) [OF this] y show ?thesis by simp
        next
          case nz
          then have "sample_loop src type samplesize (k + 1) (j + 1) (samples @ [?sl])
                       (totsl + ?sl) = Some y"
            using 1(2) True REDIS_REPLY_KEY by simp
          from 1(1) [OF this] y obtain new where
            "ss = (samples @ [?sl]) @ new" "tt = totsl + ?sl + sum_list new"
            "length new = nat (samplesize - (j + 1))"
            by blast
          then have "ss = samples @ (?sl # new) \<and> tt = totsl + sum_list (?sl # new) \<and>
                     length (?sl # new) = nat (samplesize - j)"
            using True by (simp add: add.assoc)
          then show ?thesis by blast
        next
          case other
          then have "sample_loop src type samplesize (k + 1) (j + 1) (samples @ [0]) totsl = Some y"
            using 1(2) True REDIS_REPLY_KEY by simp
          from 1(1) [OF this] y obtain new where
            "ss = (samples @ [0]) @ new" "tt = totsl + sum_list new"
            "length new = nat (samplesize - (j + 1))"
            by blast
          then have "ss = samples @ (0 # new) \<and> tt = totsl + sum_list (0 # new) \<and>
                     length (0 # new) = nat (samplesize - j)"
            using True by simp
          then show ?thesis by blast
        qed
      qed
    qed
  qed
qed

subsection \<open>Machine arithmetic\<close>

lemma uint_to_size_t:
  assumes "0 \<le> n" "n < 2 ^ 31"
  shows "uint (to_size_t n) = n"
proof -
  have "n < 2 ^ 64" using assms(2) by simp
  then have "take_bit 64 n = n" using assms(1) by (simp add: take_bit_int_eq_self)
  then show ?thesis unfolding to_size_t_def by (simp add: uint_word_of_int_eq)
qed

lemma unat_to_size_t:
  assumes "0 \<le> n" "n < 2 ^ 31"
  shows "unat (to_size_t n) = nat n"
  using uint_to_size_t [OF assms] by (simp add: unat_eq_nat_uint)

lemma to_size_t_nonzero:
  assumes "0 < n" "n < 2 ^ 31"
  shows "to_size_t n \<noteq> 0"
proof
  assume "to_size_t n = 0"
  then have "unat (to_size_t n) = 0" by simp
  then show False using unat_to_size_t [of n] assms by simp
qed

lemma deltasum_loop_eq:
  "deltasum_loop avg samples acc =
     acc + word_of_int (\<Sum>s\<leftarrow>samples. (uint avg - uint s)\<^sup>2)"
  by (induction samples arbitrary: acc) (simp_all add: Let_def power2_eq_square add.assoc)

lemma sum_list_size_t:
  "(sum_list samples :: size_t) = word_of_nat (sum_list (map unat samples))"
  by (induction samples) simp_all

lemma unat_sum_list:
  "sum_list (map unat samples) < 2 ^ 64 \<Longrightarrow>
   unat (sum_list samples :: size_t) = sum_list (map unat samples)"
  by (simp add: sum_list_size_t unat_of_nat take_bit_nat_eq_self)

lemma uint_word_of_int_small:
  "0 \<le> x \<Longrightarrow> x < 2 ^ 64 \<Longrightarrow> uint (word_of_int x :: size_t) = x"
  by (simp add: uint_word_of_int_eq take_bit_int_eq_self)

subsection \<open>The samples collected\<close>

lemma reported_sizes_step:
  "k < K \<Longrightarrow> reported_sizes src k K =
     (if getSerializedLen (debug_object (src k)) = 0 then reported_sizes src (Suc k) K
      else getSerializedLen (debug_object (src k)) # reported_sizes src (Suc k) K)"
  by (simp add: reported_sizes_def upt_rec [of k K])

lemma sample_loop_collects:
  assumes keys: "\<forall>i<K. is_key (src i)"
  shows "nat (n - j) \<le> length (reported_sizes src k K) \<Longrightarrow>
     sample_loop src SAMPLE_SERIALIZEDLEN n k j s t =
       Some (Inr (s @ take (nat (n - j)) (reported_sizes src k K),
                  t + sum_list (take (nat (n - j)) (reported_sizes src k K))))"
proof (induction "K - k" arbitrary: k j s t)
  case 0
  then have "reported_sizes src k K = []" by (simp add: reported_sizes_def)
  with 0 have "\<not> j < n" by simp
  then show ?case by (simp add: sample_loop_exit)
next
  case (Suc d)
  then have kK: "k < K" by simp
  then have key: "is_key (src k)" using keys by simp
  have d: "d = K - Suc k" using Suc.hyps(2) by simp
  let ?sl = "getSerializedLen (debug_object (src k))"
  show ?case
  proof (cases "j < n")
    case False
    then show ?thesis by (simp add: sample_loop_exit)
  next
    case True
    show ?thesis
    proof (cases "?sl = 0")
      case z: True
      then have rs: "reported_sizes src k K = reported_sizes src (Suc k) K"
        using reported_sizes_step [OF kK, of src] by simp
      have "sample_loop src SAMPLE_SERIALIZEDLEN n k j s t =
            sample_loop src SAMPLE_SERIALIZEDLEN n (Suc k) j s t"
        using sample_loop_zero [of j n src k s t] True key z by simp
      also have "\<dots> = Some (Inr (s @ take (nat (n - j)) (reported_sizes src (Suc k) K),
                  t + sum_list (take (nat (n - j)) (reported_sizes src (Suc k) K))))"
        using Suc.prems rs by (intro Suc.hyps(1) [OF d]) simp
      finally show ?thesis by (simp add: rs)
    next
      case nz: False
      then have rs: "reported_sizes src k K = ?sl # reported_sizes src (Suc k) K"
        using reported_sizes_step [OF kK, of src] by simp
      have nj: "nat (n - j) = Suc (nat (n - (j + 1)))" using True by simp
      have "sample_loop src SAMPLE_SERIALIZEDLEN n k j s t =
            sample_loop src SAMPLE_SERIALIZEDLEN n (Suc k) (j + 1) (s @ [?sl]) (t + ?sl)"
        using sample_loop_nonzero [of j n src k s t] True key nz by simp
      also have "\<dots> = Some (Inr ((s @ [?sl]) @ take (nat (n - (j + 1))) (reported_sizes src (Suc k) K),
                  t + ?sl + sum_list (take (nat (n - (j + 1))) (reported_sizes src (Suc k) K))))"
        using Suc.prems rs nj by (intro Suc.hyps(1) [OF d]) simp
      finally show ?thesis by (simp add: rs nj add.assoc)
    qed
  qed
qed

subsection \<open>Claim C1: the reported average and standard deviation\<close>

text \<open>
  C1 (as amended). Once \<open>samplesize\<close> samples are collected (\<open>0 < samplesize\<close>), the
  reported average is the integer quotient \<open>sum(samples) div samplesize\<close> and the reported
  standard deviation is the square root of the integer quotient
  \<open>sum((average - s)^2) div samplesize\<close>; both sums are taken in 64-bit arithmetic and
  are exact as long as they stay below \<open>2^64\<close>.
\<close>
theorem sampleDataset_stats:
  assumes ret: "sampleDataset src ty samplesize = Some (Inr st)"
    and n: "0 < samplesize" "samplesize < 2 ^ 31"
    and tot: "sum_list (map unat (samples_of st)) < 2 ^ 64"
    and dev: "(\<Sum>s\<leftarrow>samples_of st. (uint (average st) - uint s)\<^sup>2) < 2 ^ 64"
  shows "int (length (samples_of st)) = samplesize \<and>
    unat (average st) = sum_list (map unat (samples_of st)) div nat samplesize \<and>
    stddev st = sqrt (real_of_int
       ((\<Sum>s\<leftarrow>samples_of st. (uint (average st) - uint s)\<^sup>2) div samplesize))"
proof -
  from ret obtain samples totsl where
    loop: "sample_loop src ty samplesize 0 0 [] 0 = Some (Inr (samples, totsl))"
    and stats: "sample_stats samplesize samples totsl = Inr st"
    by (auto simp: sampleDataset_def split: option.splits sum.splits)
  from sample_loop_result [OF loop] have
    tots: "totsl = sum_list samples" and len: "length samples = nat samplesize" by auto
  have nz: "to_size_t samplesize \<noteq> 0" using to_size_t_nonzero [of samplesize] n by auto
  have un: "unat (to_size_t samplesize) = nat samplesize" using unat_to_size_t [of samplesize] n by simp
  from stats nz have st: "samples_of st = samples" "average st = totsl div to_size_t samplesize"
    "variance st = deltasum_loop (average st) samples 0 div to_size_t samplesize"
    "stddev st = sqrt (real (unat (variance st)))"
    by (auto simp: sample_stats_def Let_def)
  have 1: "int (length (samples_of st)) = samplesize" using st(1) len n by simp
  have 2: "unat (average st) = sum_list (map unat (samples_of st)) div nat samplesize"
    using tot by (simp add: st(1,2) tots unat_div un unat_sum_list)
  let ?D = "\<Sum>s\<leftarrow>samples_of st. (uint (average st) - uint s)\<^sup>2"
  have D0: "0 \<le> ?D" by (rule sum_list_nonneg) auto
  have "uint (deltasum_loop (average st) samples 0) = ?D"
    using uint_word_of_int_small [OF D0 dev] by (simp add: deltasum_loop_eq st(1))
  moreover have "uint (to_size_t samplesize) = samplesize" using uint_to_size_t [of samplesize] n by simp
  ultimately have "uint (variance st) = ?D div samplesize" by (simp add: st(3) uint_div)
  then have "int (unat (variance st)) = ?D div samplesize"
    by simp
  then have "real (unat (variance st)) = real_of_int (?D div samplesize)"
    by (metis of_int_of_nat_eq)
  then have 3: "stddev st = sqrt (real_of_int (?D div samplesize))" by (simp add: st(4))
  from 1 2 3 show ?thesis by blast
qed

text \<open>The run on the sizes 10, 20, 30: average 20, integer variance 66.\<close>

lemma sampleDataset_10_20_30:
  "sampleDataset (replay [10, 20, 30]) SAMPLE_SERIALIZEDLEN 3 =
     Some (Inr \<lparr> samples_of = [10, 20, 30], average = 20, variance = 66, stddev = sqrt 66 \<rparr>)"
  by (simp add: sampleDataset_def sample_loop.simps replay_def sample_stats_def to_size_t_def)

theorem sampleDataset_stats_witness:
  "sampleDataset (replay [10, 20, 30]) SAMPLE_SERIALIZEDLEN 3 =
     Some (Inr \<lparr> samples_of = [10, 20, 30], average = 20, variance = 66, stddev = sqrt 66 \<rparr>) \<and>
   unat (20 :: size_t) = (10 + 20 + 30) div 3 \<and>
   sqrt 66 = sqrt (real_of_int (((20 - 10)\<^sup>2 + (20 - 20)\<^sup>2 + (20 - 30)\<^sup>2) div 3))"
  using sampleDataset_stats [OF sampleDataset_10_20_30] sampleDataset_10_20_30
  by simp

text \<open>
  For the samples 10, 20, 30 the reported deviation is \<open>sqrt 66\<close>, about 8.12, and not
  \<open>sqrt (200/3)\<close>, about 8.165: the quotient \<open>200 div 3\<close> is taken in integers before
  the square root.
\<close>

theorem sampleDataset_stddev_counterexample:
  "sampleDataset (replay [10, 20, 30]) SAMPLE_SERIALIZEDLEN 3 =
     Some (Inr \<lparr> samples_of = [10, 20, 30], average = 20, variance = 66, stddev = sqrt 66 \<rparr>) \<and>
   sqrt 66 \<noteq> sqrt ((100 + 0 + 100) / 3) \<and> sqrt 66 < 8.13 \<and> 8.16 < sqrt ((100 + 0 + 100) / 3)"
proof -
  have a: "sqrt 66 \<noteq> sqrt ((100 + 0 + 100) / 3)" by (simp add: real_sqrt_eq_iff)
  have "sqrt 66 < sqrt ((8.13::real)\<^sup>2)" unfolding real_sqrt_less_iff by (simp add: power2_eq_square)
  then have b: "sqrt 66 < 8.13" by simp
  have "sqrt ((8.16::real)\<^sup>2) < sqrt ((100 + 0 + 100) / 3)" unfolding real_sqrt_less_iff by (simp add: power2_eq_square)
  then have c: "8.16 < sqrt ((100 + 0 + 100) / 3)" by simp
  from a b c sampleDataset_10_20_30 show ?thesis by blast
qed

subsection \<open>Claim C9: an empty dataset or an error reply aborts the collection\<close>

text \<open>
  C9. If the \<open>k\<close>-th \<^verbatim>\<open>RANDOMKEY\<close> request is the first one answered with nil or with
  an error, and the collection is not complete before it, then the collection fails at once
  with \<open>SourceEmpty\<close> or \<open>SourceError\<close>: the request is not repeated and the result
  carries no samples. With \<open>k = 0\<close>: a server that is empty at the first request makes
  the collection fail with no sample collected.
\<close>
theorem sampleDataset_aborts:
  assumes "\<forall>i<k. is_key (src i)"
    and "int (length (filter (\<lambda>i. fills_slot ty (src i)) [0..<k])) < samplesize"
  shows "(randomkey (src k) = REDIS_REPLY_NIL \<longrightarrow>
            sampleDataset src ty samplesize = Some (Inl SourceEmpty)) \<and>
         (randomkey (src k) = REDIS_REPLY_ERROR msg \<longrightarrow>
            sampleDataset src ty samplesize = Some (Inl (SourceError msg)))"
proof -
  let ?c = "int (length (filter (\<lambda>i. fills_slot ty (src i)) [0..<k]))"
  from sample_loop_advance [of 0 k src 0 ty samplesize "[]" 0] assms obtain s' t' where
    eq: "sample_loop src ty samplesize 0 0 [] 0 = sample_loop src ty samplesize k ?c s' t'" by auto
  show ?thesis using assms(2) unfolding sampleDataset_def eq
    by (auto simp: sample_loop_nil sample_loop_error)
qed

theorem sampleDataset_aborts_witness:
  "sampleDataset (empty_after 0 (replay [0, 5])) SAMPLE_SERIALIZEDLEN 3 = Some (Inl SourceEmpty) \<and>
   sampleDataset (empty_after 2 (replay [0, 5])) SAMPLE_SERIALIZEDLEN 3 = Some (Inl SourceEmpty)"
  using sampleDataset_aborts [of 0 "empty_after 0 (replay [0, 5])" SAMPLE_SERIALIZEDLEN 3]
    sampleDataset_aborts [of 2 "empty_after 2 (replay [0, 5])" SAMPLE_SERIALIZEDLEN 3]
  by (simp add: empty_after_def replay_def is_key_def fills_slot_def upt_rec All_less_Suc numeral_2_eq_2)

subsection \<open>Claim C10: zero sizes are retried and the collection is complete\<close>

text \<open>
  C10. If the requests are answered with a key and the server reports at least
  \<open>samplesize\<close> sizes that are not zero (within the first \<open>K\<close> rounds, for some \<open>K\<close>),
  the collection returns exactly the first \<open>samplesize\<close> nonzero sizes reported, in the
  order reported: every size read as zero is discarded, the slot is tried again and the
  budget is not touched. So the result has exactly \<open>samplesize\<close> samples, each of them
  positive.
\<close>

theorem sampleDataset_collects:
  assumes keys: "\<forall>i<K. is_key (src i)"
    and enough: "nat samplesize \<le> length (reported_sizes src 0 K)"
  shows "sample_loop src SAMPLE_SERIALIZEDLEN samplesize 0 0 [] 0 =
           Some (Inr (take (nat samplesize) (reported_sizes src 0 K),
                      sum_list (take (nat samplesize) (reported_sizes src 0 K)))) \<and>
         (0 < samplesize \<and> samplesize < 2 ^ 31 \<longrightarrow>
            (\<exists>st. sampleDataset src SAMPLE_SERIALIZEDLEN samplesize = Some (Inr st) \<and>
                  samples_of st = take (nat samplesize) (reported_sizes src 0 K) \<and>
                  int (length (samples_of st)) = samplesize \<and>
                  (\<forall>x\<in>set (samples_of st). 0 < x))) \<and>
         (\<forall>k<K. \<forall>j s t. j < samplesize \<and> getSerializedLen (debug_object (src k)) = 0 \<longrightarrow>
              sample_loop src SAMPLE_SERIALIZEDLEN samplesize k j s t =
              sample_loop src SAMPLE_SERIALIZEDLEN samplesize (Suc k) j s t)"
proof (intro conjI impI)
  let ?xs = "take (nat samplesize) (reported_sizes src 0 K)"
  show loop: "sample_loop src SAMPLE_SERIALIZEDLEN samplesize 0 0 [] 0 = Some (Inr (?xs, sum_list ?xs))"
    using sample_loop_collects [OF keys, of samplesize 0 0 "[]" 0] enough by simp
  show "\<exists>st. sampleDataset src SAMPLE_SERIALIZEDLEN samplesize = Some (Inr st) \<and>
            samples_of st = ?xs \<and> int (length (samples_of st)) = samplesize \<and>
            (\<forall>x\<in>set (samples_of st). 0 < x)"
    if n: "0 < samplesize \<and> samplesize < 2 ^ 31"
  proof -
    have nz: "to_size_t samplesize \<noteq> 0" using to_size_t_nonzero [of samplesize] n by simp
    have len: "int (length ?xs) = samplesize" using enough n by simp
    have "set ?xs \<subseteq> set (reported_sizes src 0 K)" by (rule set_take_subset)
    then have pos: "\<forall>x\<in>set ?xs. 0 < x" by (auto simp: reported_sizes_def word_greater_zero_iff)
    show ?thesis using loop nz len pos
      by (simp add: sampleDataset_def sample_stats_def Let_def)
  qed
  show "\<forall>k<K. \<forall>j s t. j < samplesize \<and> getSerializedLen (debug_object (src k)) = 0 \<longrightarrow>
              sample_loop src SAMPLE_SERIALIZEDLEN samplesize k j s t =
              sample_loop src SAMPLE_SERIALIZEDLEN samplesize (Suc k) j s t"
    using keys by (simp add: sample_loop_zero)
qed

lemma upt4: "[0..<4] = [0, 1, 2, 3]"
  by (simp add: upt_rec)

lemma upt2: "[0..<2] = [0, 1]"
  by (simp add: upt_rec)

theorem sampleDataset_collects_witness:
  "(\<exists>st. sampleDataset (sizes_then_zero [0, 5, 0, 7]) SAMPLE_SERIALIZEDLEN 2 = Some (Inr st) \<and>
      samples_of st = [5, 7]) \<and>
   (\<exists>st. sampleDataset (sizes_then_zero [5, 5]) SAMPLE_SERIALIZEDLEN 2 = Some (Inr st) \<and>
      samples_of st = [5, 5]) \<and>
   sample_loop (sizes_then_zero [0, 5, 0, 7]) SAMPLE_SERIALIZEDLEN 2 0 0 [] 0 =
     sample_loop (sizes_then_zero [0, 5, 0, 7]) SAMPLE_SERIALIZEDLEN 2 1 0 [] 0"
proof -
  have r1: "reported_sizes (sizes_then_zero [0, 5, 0, 7]) 0 4 = [5, 7]"
    by (simp add: reported_sizes_def sizes_then_zero_def upt4)
  have r2: "reported_sizes (sizes_then_zero [5, 5]) 0 2 = [5, 5]"
    by (simp add: reported_sizes_def sizes_then_zero_def upt2)
  have k1: "\<forall>i<4. is_key (sizes_then_zero [0, 5, 0, 7] i)"
    by (simp add: is_key_def sizes_then_zero_def)
  have k2: "\<forall>i<2. is_key (sizes_then_zero [5, 5] i)"
    by (simp add: is_key_def sizes_then_zero_def)
  have z: "getSerializedLen (debug_object (sizes_then_zero [0, 5, 0, 7] 0)) = 0"
    by (simp add: sizes_then_zero_def)
  from sampleDataset_collects [OF k1, of 2] r1
  have a: "\<exists>st. sampleDataset (sizes_then_zero [0, 5, 0, 7]) SAMPLE_SERIALIZEDLEN 2 = Some (Inr st) \<and>
      samples_of st = [5, 7]"
    and c: "sample_loop (sizes_then_zero [0, 5, 0, 7]) SAMPLE_SERIALIZEDLEN 2 0 0 [] 0 =
     sample_loop (sizes_then_zero [0, 5, 0, 7]) SAMPLE_SERIALIZEDLEN 2 1 0 [] 0"
    using z by auto
  from sampleDataset_collects [OF k2, of 2] r2
  have b: "\<exists>st. sampleDataset (sizes_then_zero [5, 5]) SAMPLE_SERIALIZEDLEN 2 = Some (Inr st) \<and>
      samples_of st = [5, 5]" by auto
  from a b c show ?thesis by blast
qed


section \<open>Properties of samplesToGraph\<close>

subsection \<open>The scan\<close>

lemma auto_scan_MED:
  "auto_scan SCALE_LINEAR_MED samples =
     (if \<exists>s\<in>set samples. 100 < s then SCALE_LINEAR_LARGE else SCALE_LINEAR_MED)"
  by (induction samples) (auto simp: GRAPH_ROWS_def)

lemma word_100_20: "(100 :: size_t) < s \<Longrightarrow> 20 < s"
  by (rule less_trans [of 20 100]) simp_all

lemma auto_scan_SMALL:
  "auto_scan SCALE_LINEAR_SMALL samples =
     (if \<exists>s\<in>set samples. 100 < s then SCALE_LINEAR_LARGE
      else if \<exists>s\<in>set samples. 20 < s then SCALE_LINEAR_MED
      else SCALE_LINEAR_SMALL)"
proof (induction samples)
  case Nil
  then show ?case by simp
next
  case (Cons s samples)
  show ?case
  proof (cases "20 < s")
    case True
    then show ?thesis
      using auto_scan_MED [of samples] by (auto simp: GRAPH_ROWS_def dest: word_100_20)
  next
    case False
    then have "\<not> 100 < s" using word_100_20 by blast
    with False Cons show ?thesis by (simp add: GRAPH_ROWS_def)
  qed
qed

subsection \<open>Claim C7: automatic scale resolution\<close>

text \<open>
  C7. The automatic scale starts at \<^verbatim>\<open>SCALE_LINEAR_SMALL\<close> and is decided by strict
  comparisons in one scan: \<^verbatim>\<open>SCALE_LINEAR_LARGE\<close> if some sample is greater than 100,
  else \<^verbatim>\<open>SCALE_LINEAR_MED\<close> if some sample is greater than 20, else
  \<^verbatim>\<open>SCALE_LINEAR_SMALL\<close> (a maximum of exactly 20 does not escalate). A scale kind
  other than the automatic one is taken as given.
\<close>

theorem resolve_scale_auto:
  "resolve_scale SCALE_LINEAR_AUTO samples =
     (if \<exists>s\<in>set samples. 100 < s then SCALE_LINEAR_LARGE
      else if \<exists>s\<in>set samples. 20 < s then SCALE_LINEAR_MED
      else SCALE_LINEAR_SMALL) \<and>
   resolve_scale SCALE_POWEROFTWO samples = SCALE_POWEROFTWO \<and>
   resolve_scale SCALE_LINEAR_SMALL samples = SCALE_LINEAR_SMALL \<and>
   resolve_scale SCALE_LINEAR_MED samples = SCALE_LINEAR_MED \<and>
   resolve_scale SCALE_LINEAR_LARGE samples = SCALE_LINEAR_LARGE"
  by (simp add: resolve_scale_def auto_scan_SMALL)

theorem resolve_scale_auto_witness:
  "resolve_scale SCALE_LINEAR_AUTO [3, 20] = SCALE_LINEAR_SMALL \<and>
   resolve_scale SCALE_LINEAR_AUTO [3, 21] = SCALE_LINEAR_MED \<and>
   resolve_scale SCALE_LINEAR_AUTO [21, 101, 5] = SCALE_LINEAR_LARGE \<and>
   resolve_scale SCALE_LINEAR_AUTO [5, 101, 21] = SCALE_LINEAR_LARGE"
  using resolve_scale_auto [of "[3, 20]"] resolve_scale_auto [of "[3, 21]"]
    resolve_scale_auto [of "[21, 101, 5]"] resolve_scale_auto [of "[5, 101, 21]"]
  by simp

subsection \<open>The scale tables\<close>

lemma resolve_scale_not_auto: "resolve_scale scaletype samples \<noteq> SCALE_LINEAR_AUTO"
  by (simp add: resolve_scale_def auto_scan_SMALL)

lemma init_scale_POWEROFTWO:
  "init_scale SCALE_POWEROFTWO scale0 =
    [1, 2, 4, 8, 16, 32, 64, 128, 256, 512, 1024, 2048, 4096, 8192, 16384,
     32768, 65536, 131072, 262144, 524288]"
  by code_simp

lemma init_scale_LINEAR_SMALL:
  "init_scale SCALE_LINEAR_SMALL scale0 =
    [1, 2, 3, 4, 5, 6, 7, 8, 9, 10, 11, 12, 13, 14, 15, 16, 17, 18, 19, 20]"
  by code_simp

lemma init_scale_LINEAR_MED:
  "init_scale SCALE_LINEAR_MED scale0 =
    [5, 10, 15, 20, 25, 30, 35, 40, 45, 50, 55, 60, 65, 70, 75, 80, 85, 90, 95, 100]"
  by code_simp

lemma init_scale_LINEAR_LARGE:
  "init_scale SCALE_LINEAR_LARGE scale0 =
    [50, 100, 150, 200, 250, 300, 350, 400, 450, 500, 550, 600, 650, 700, 750, 800,
     850, 900, 950, 1000]"
  by code_simp

lemma init_scale_sorted:
  "scaletype \<noteq> SCALE_LINEAR_AUTO \<Longrightarrow>
   sorted_wrt (<) (init_scale scaletype scale0) \<and> length (init_scale scaletype scale0) = GRAPH_ROWS"
  by (cases scaletype)
     (simp_all add: init_scale_POWEROFTWO init_scale_LINEAR_SMALL init_scale_LINEAR_MED
        init_scale_LINEAR_LARGE GRAPH_ROWS_def)

lemma bucket_index_spec:
  assumes "sorted_wrt (<) scale" "n < length scale"
  shows "bucket_index scale s n \<le> n \<and>
         (\<forall>j<bucket_index scale s n. scale ! j < s) \<and>
         (bucket_index scale s n < n \<longrightarrow> s \<le> scale ! bucket_index scale s n)"
  using assms(2)
proof (induction n)
  case 0
  then show ?case by simp
next
  case (Suc n)
  show ?case
  proof (cases "s \<le> scale ! n")
    case True
    have IH: "bucket_index scale s n \<le> n \<and>
         (\<forall>j<bucket_index scale s n. scale ! j < s) \<and>
         (bucket_index scale s n < n \<longrightarrow> s \<le> scale ! bucket_index scale s n)"
      using Suc by simp
    have "s \<le> scale ! bucket_index scale s n"
    proof (cases "bucket_index scale s n < n")
      case True
      then show ?thesis using IH by blast
    next
      case False
      then have "bucket_index scale s n = n" using IH by simp
      then show ?thesis using True by simp
    qed
    then show ?thesis using True IH by simp
  next
    case False
    have "\<forall>j<Suc n. scale ! j < s"
    proof (intro allI impI)
      fix j assume j: "j < Suc n"
      have "scale ! j \<le> scale ! n"
      proof (cases "j = n")
        case True then show ?thesis by simp
      next
        case False
        then have "j < n" using j by simp
        then have "scale ! j < scale ! n"
          using assms(1) Suc.prems by (simp add: sorted_wrt_nth_less)
        then show ?thesis by simp
      qed
      then show "scale ! j < s" using False by simp
    qed
    then show ?thesis using False by simp
  qed
qed

subsection \<open>Claim C6: the binning rule\<close>

text \<open>
  C6. For every sample and every scale kind, the binning loop increments the frequency of
  the least bucket index whose upper bound is at least the sample, and of the last index
  \<^verbatim>\<open>GRAPH_ROWS-1\<close> when the sample is above every upper bound.
\<close>

theorem count_sample_smallest_bucket:
  "let scale = init_scale (resolve_scale scaletype samples) scale0;
       i = bucket_index scale s (GRAPH_ROWS - 1)
   in count_sample scale s freq = freq[i := freq ! i + 1] \<and> i < GRAPH_ROWS \<and>
      (if \<exists>j<GRAPH_ROWS. s \<le> scale ! j
       then s \<le> scale ! i \<and> (\<forall>j<i. scale ! j < s)
       else i = GRAPH_ROWS - 1)"
proof -
  define scale where "scale = init_scale (resolve_scale scaletype samples) scale0"
  define i where "i = bucket_index scale s (GRAPH_ROWS - 1)"
  have so: "sorted_wrt (<) scale" and len: "length scale = GRAPH_ROWS"
    using init_scale_sorted [OF resolve_scale_not_auto] by (simp_all add: scale_def)
  have "GRAPH_ROWS - 1 < length scale" by (simp add: len GRAPH_ROWS_def)
  from bucket_index_spec [OF so this, of s] have
    le: "i \<le> GRAPH_ROWS - 1" and below: "\<forall>j<i. scale ! j < s"
    and at: "i < GRAPH_ROWS - 1 \<longrightarrow> s \<le> scale ! i"
    by (simp_all add: i_def)
  have i: "i < GRAPH_ROWS" using le by (simp add: GRAPH_ROWS_def)
  have "s \<le> scale ! i" if ex: "\<exists>j<GRAPH_ROWS. s \<le> scale ! j"
  proof (cases "i < GRAPH_ROWS - 1")
    case True
    then show ?thesis using at by blast
  next
    case False
    then have iv: "i = GRAPH_ROWS - 1" using le by simp
    from ex obtain j where j: "j < GRAPH_ROWS" "s \<le> scale ! j" by blast
    have "\<not> j < i" using below j(2) by auto
    then have "j = i" using j(1) iv by simp
    then show ?thesis using j(2) by simp
  qed
  moreover have "i = GRAPH_ROWS - 1" if nex: "\<not> (\<exists>j<GRAPH_ROWS. s \<le> scale ! j)"
  proof (rule ccontr)
    assume "i \<noteq> GRAPH_ROWS - 1"
    then have "i < GRAPH_ROWS - 1" using le by simp
    then have "s \<le> scale ! i" using at by blast
    then show False using nex i by blast
  qed
  ultimately have "(if \<exists>j<GRAPH_ROWS. s \<le> scale ! j
       then s \<le> scale ! i \<and> (\<forall>j<i. scale ! j < s)
       else i = GRAPH_ROWS - 1)" using below by simp
  moreover have "count_sample scale s freq = freq[i := freq ! i + 1]"
    by (simp add: count_sample_def i_def Let_def)
  ultimately show ?thesis using i unfolding Let_def scale_def [symmetric] i_def [symmetric] by simp
qed

theorem count_sample_smallest_bucket_witness:
  "count_sample (init_scale SCALE_LINEAR_SMALL []) 7 (replicate GRAPH_ROWS 0) =
     (replicate GRAPH_ROWS 0)[6 := 1] \<and>
   bucket_index (init_scale SCALE_LINEAR_SMALL []) 7 (GRAPH_ROWS - 1) = 6 \<and>
   count_sample (init_scale SCALE_LINEAR_MED []) 500 (replicate GRAPH_ROWS 0) =
     (replicate GRAPH_ROWS 0)[19 := 1] \<and>
   bucket_index (init_scale SCALE_LINEAR_MED []) 500 (GRAPH_ROWS - 1) = 19"
proof -
  have a: "bucket_index (init_scale SCALE_LINEAR_SMALL []) 7 19 = 6"
    by code_simp
  have b: "bucket_index (init_scale SCALE_LINEAR_MED []) 500 19 = 19"
    by code_simp
  have r1: "resolve_scale SCALE_LINEAR_AUTO [7] = SCALE_LINEAR_SMALL" by code_simp
  have r2: "resolve_scale SCALE_LINEAR_MED [] = SCALE_LINEAR_MED" by code_simp
  show ?thesis
    using count_sample_smallest_bucket [of SCALE_LINEAR_AUTO "[7]" "[]" 7 "replicate GRAPH_ROWS 0"]
      count_sample_smallest_bucket [of SCALE_LINEAR_MED "[]" "[]" 500 "replicate GRAPH_ROWS 0"]
    by (simp add: Let_def a b r1 r2 GRAPH_ROWS_def)
qed

subsection \<open>Claim C8: the label of the topmost bucket\<close>

text \<open>
  C8 (the code at the failing input). When every sample falls into bucket 0, \<open>high\<close> is 0
  and the label of the only line printed reads \<^verbatim>\<open>scale[high-1]\<close>, an entry before the
  start of the scale table.
\<close>

theorem samplesToGraph_overflow_label_out_of_bounds:
  "samplesToGraph [1] SCALE_LINEAR_AUTO scale0 = Inl OutOfBounds \<and>
   samplesToGraph [1, 1, 1] SCALE_LINEAR_SMALL scale0 = Inl OutOfBounds \<and>
   highest (count_samples (init_scale SCALE_LINEAR_SMALL scale0) [1, 1, 1]) (GRAPH_ROWS - 1) = 0"
  by code_simp


text \<open>
  With three samples of 5 bytes \<open>high\<close> is 4: five lines are printed, the last one with
  the label \<^verbatim>\<open>">  4"\<close> read from \<^verbatim>\<open>scale[3]\<close>, a full bar and 100 percent.
\<close>

lemma samplesToGraph_all_equal_5:
  "map_sum id (map (\<lambda>r. (label r, length (bar r), percent r)))
     (samplesToGraph [5, 5, 5] SCALE_LINEAR_AUTO scale0) =
   Inr [(LessEq 1, 0, 0), (LessEq 2, 0, 0), (LessEq 3, 0, 0), (LessEq 4, 0, 0),
        (Greater 4, 50, 100)]"
  by code_simp


section \<open>Properties of vmpage\<close>

subsection \<open>The scan and the page table\<close>

lemma unat_succ_less:
  fixes i e :: size_t
  assumes "i < e"
  shows "unat (i + 1) = Suc (unat i)"
proof -
  have lt: "unat i < unat e" using assms by (simp add: word_less_nat_alt)
  have "unat e < 2 ^ 64" using unsigned_less [of e] by simp
  with lt have "unat i + 1 < 2 ^ 64" by simp
  then show ?thesis by (simp add: unat_word_ariths)
qed

lemma scan_free_success:
  "scan_free pgs i e = Inr e \<Longrightarrow> i \<le> e \<Longrightarrow>
   \<forall>k. unat i \<le> k \<and> k < unat e \<longrightarrow> k < length pgs \<and> pgs ! k = 0"
proof (induction pgs i e rule: scan_free.induct)
  case (1 pgs i e)
  show ?case
  proof (cases "i < e")
    case False
    then have "i = e" using 1(3) by simp
    then show ?thesis by auto
  next
    case True
    have inb: "\<not> length pgs \<le> unat i"
      using 1(2) True by (subst (asm) scan_free.simps) (simp split: if_splits)
    have z: "pgs ! unat i = 0"
    proof (rule ccontr)
      assume "pgs ! unat i \<noteq> 0"
      then have "scan_free pgs i e = Inr i" using True inb by (subst scan_free.simps) simp
      then show False using 1(2) True by simp
    qed
    have rec: "scan_free pgs (i + 1) e = Inr e"
      using 1(2) True inb z by (subst (asm) scan_free.simps) simp
    have le: "i + 1 \<le> e" using True by (rule inc_le)
    have IH: "\<forall>k. unat (i + 1) \<le> k \<and> k < unat e \<longrightarrow> k < length pgs \<and> pgs ! k = 0"
      using 1(1) [OF True inb _ rec le] z by simp
    show ?thesis
    proof (intro allI impI)
      fix k assume k: "unat i \<le> k \<and> k < unat e"
      show "k < length pgs \<and> pgs ! k = 0"
      proof (cases "k = unat i")
        case True
        then show ?thesis using inb z by simp
      next
        case False
        then have "unat (i + 1) \<le> k" using k unat_succ_less [OF \<open>i < e\<close>] by simp
        then show ?thesis using IH k by blast
      qed
    qed
  qed
qed

lemma scan_free_blocked:
  "i < e \<Longrightarrow> unat i < length pgs \<Longrightarrow> pgs ! unat i \<noteq> 0 \<Longrightarrow> scan_free pgs i e = Inr i"
  by (subst scan_free.simps) simp

lemma scan_free_in_bounds:
  "unat e \<le> length pgs \<Longrightarrow> scan_free pgs i e \<noteq> Inl err"
proof (induction pgs i e rule: scan_free.induct)
  case (1 pgs i e)
  show ?case
  proof (cases "i < e")
    case False
    then show ?thesis by (subst scan_free.simps) simp
  next
    case True
    then have "unat i < unat e" by (simp add: word_less_nat_alt)
    then have inb: "\<not> length pgs \<le> unat i" using 1(2) by simp
    show ?thesis
    proof (cases "pgs ! unat i \<noteq> 0")
      case True
      then show ?thesis using \<open>i < e\<close> inb by (subst scan_free.simps) simp
    next
      case False
      then have "scan_free pgs i e = scan_free pgs (i + 1) e"
        using \<open>i < e\<close> inb by (subst scan_free.simps) simp
      then show ?thesis using 1(1) [OF True inb _ 1(2)] False by simp
    qed
  qed
qed

lemma occupied_append: "occupied (xs @ ys) = occupied xs + occupied ys"
  by (simp add: occupied_def)

lemma occupied_zeros: "\<forall>p\<in>set xs. p = 0 \<Longrightarrow> occupied xs = 0"
  by (simp add: occupied_def)

lemma occupied_le: "occupied xs \<le> length xs"
  by (simp add: occupied_def)

lemma occupied_memset:
  assumes free: "\<forall>k. off \<le> k \<and> k < off + n \<longrightarrow> k < length pgs \<and> pgs ! k = 0"
  shows "occupied (memset pgs off 1 n) = occupied pgs + n \<and> length (memset pgs off 1 n) = length pgs"
proof (cases "n = 0")
  case True
  then show ?thesis by (simp add: memset_def occupied_append [symmetric])
next
  case False
  then have "off \<le> off + n - 1 \<and> off + n - 1 < off + n" by simp
  then have "off + n - 1 < length pgs" using free by blast
  then have inb: "off + n \<le> length pgs" by simp
  have split: "pgs = take off pgs @ take n (drop off pgs) @ drop (off + n) pgs"
    by (metis append_take_drop_id drop_drop add.commute)
  have "\<forall>p\<in>set (take n (drop off pgs)). p = 0"
  proof
    fix p assume "p \<in> set (take n (drop off pgs))"
    then obtain k where k: "k < length (take n (drop off pgs))" "p = take n (drop off pgs) ! k"
      by (auto simp: in_set_conv_nth)
    then have "k < n" by simp
    then have "p = pgs ! (off + k)" using k inb by simp
    then show "p = 0" using free \<open>k < n\<close> by simp
  qed
  then have mid: "occupied (take n (drop off pgs)) = 0" by (rule occupied_zeros)
  have "occupied pgs = occupied (take off pgs) + occupied (drop (off + n) pgs)"
    using mid by (subst split) (simp add: occupied_append)
  moreover have "occupied (replicate n (1::8 word)) = n" by (simp add: occupied_def)
  ultimately show ?thesis using inb by (simp add: memset_def occupied_append)
qed

subsection \<open>One item: the invariant of the totals\<close>

lemma sim_inv_calls [simp]:
  "sim_inv totpages pagesize (st\<lparr>calls := k\<rparr>) = sim_inv totpages pagesize st"
  by (simp add: sim_inv_def)

lemma attempts_inv:
  assumes pos: "0 < pagesize"
    and cap: "uint totpages * pagesize < 2 ^ 64"
    and bytes: "uint bytes_needed \<le> uint pages_needed * pagesize"
  shows "sim_inv totpages pagesize st \<Longrightarrow>
     attempts rnd totpages pages_needed bytes_needed n st = Inr (oc, st') \<Longrightarrow>
     sim_inv totpages pagesize st' \<and>
     (oc = Exhausted \<longrightarrow> st' = st\<lparr>calls := calls st + n\<rparr>) \<and>
     (oc = Placed \<longrightarrow> used_pages st' = used_pages st + pages_needed \<and>
        stored_bytes st' = stored_bytes st + bytes_needed \<and>
        occupied (pages st') = occupied (pages st) + unat pages_needed)"
proof (induction n arbitrary: st)
  case 0
  then show ?case by simp
next
  case (Suc n)
  let ?m = "totpages - (pages_needed - 1)"
  let ?off = "ucast (rnd (calls st)) mod ?m :: size_t"
  let ?st1 = "st\<lparr>calls := calls st + 1\<rparr>"
  let ?e = "?off + pages_needed"
  have m: "?m \<noteq> 0" using Suc.prems(2) by (auto split: if_splits)
  from Suc.prems(2) m obtain i where scan: "scan_free (pages st) ?off ?e = Inr i"
    by (cases "scan_free (pages st) ?off ?e") (auto simp: Let_def)
  show ?case
  proof (cases "i = ?e")
    case False
    then have "attempts rnd totpages pages_needed bytes_needed n ?st1 = Inr (oc, st')"
      using Suc.prems(2) m scan by (simp add: Let_def)
    from Suc.IH [OF _ this] Suc.prems(1)
    show ?thesis by (auto simp: add.commute)
  next
    case True
    then have st': "st' = ?st1\<lparr>pages := memset (pages st) (unat ?off) 1 (unat pages_needed),
                         used_pages := used_pages st + pages_needed,
                         stored_bytes := stored_bytes st + bytes_needed\<rparr>" and oc: "oc = Placed"
      using Suc.prems(2) m scan by (simp_all add: Let_def)
    have nowrap: "?off \<le> ?e"
    proof (rule ccontr)
      assume "\<not> ?off \<le> ?e"
      then have "\<not> ?off < ?e" by simp
      then have "scan_free (pages st) ?off ?e = Inr ?off" by (subst scan_free.simps) simp
      with scan True have "?off = ?e" by simp
      with \<open>\<not> ?off \<le> ?e\<close> show False by simp
    qed
    then have ue: "unat ?e = unat ?off + unat pages_needed" by (simp add: unat_plus_simple)
    from scan_free_success [OF scan [unfolded True] nowrap] have
      free: "\<forall>k. unat ?off \<le> k \<and> k < unat ?off + unat pages_needed \<longrightarrow>
                k < length (pages st) \<and> pages st ! k = 0"
      by (simp add: ue)
    from occupied_memset [OF free] have
      occ: "occupied (memset (pages st) (unat ?off) 1 (unat pages_needed)) =
              occupied (pages st) + unat pages_needed"
      and len: "length (memset (pages st) (unat ?off) 1 (unat pages_needed)) = length (pages st)"
      by simp_all
    from Suc.prems(1) [unfolded sim_inv_def] have
      I1: "length (pages st) = unat totpages" and I2: "unat (used_pages st) = occupied (pages st)"
      and I3: "uint (stored_bytes st) \<le> uint (used_pages st) * pagesize"
      by blast+
    have "occupied (pages st) + unat pages_needed \<le> unat totpages"
      using occupied_le [of "memset (pages st) (unat ?off) 1 (unat pages_needed)"] occ len I1 by simp
    then have sum_le: "unat (used_pages st) + unat pages_needed \<le> unat totpages" using I2 by simp
    have "unat totpages < 2 ^ 64" using unsigned_less [of totpages] by simp
    with sum_le have "unat (used_pages st) + unat pages_needed < 2 ^ LENGTH(64)" by simp
    then have U: "unat (used_pages st + pages_needed) = unat (used_pages st) + unat pages_needed"
      by (simp only: unat_add_lem [THEN iffD1])
    then have Ui: "uint (used_pages st + pages_needed) = uint (used_pages st) + uint pages_needed"
      by (simp only: uint_nat of_nat_add)
    have sum_le_i: "uint (used_pages st) + uint pages_needed \<le> uint totpages"
      using sum_le by (simp only: uint_nat of_nat_add [symmetric] of_nat_le_iff)
    have "uint (stored_bytes st) + uint bytes_needed \<le>
            (uint (used_pages st) + uint pages_needed) * pagesize"
      using I3 bytes by (simp add: distrib_right)
    also have "\<dots> \<le> uint totpages * pagesize"
      using sum_le_i pos by (intro mult_right_mono) simp_all
    finally have S0: "uint (stored_bytes st) + uint bytes_needed \<le> uint totpages * pagesize" .
    then have "uint (stored_bytes st) + uint bytes_needed < 2 ^ LENGTH(64)" using cap by simp
    then have S: "uint (stored_bytes st + bytes_needed) = uint (stored_bytes st) + uint bytes_needed"
      by (simp only: uint_add_lem [THEN iffD1])
    have "uint (stored_bytes st + bytes_needed) \<le> uint (used_pages st + pages_needed) * pagesize"
      using I3 bytes by (simp add: S Ui distrib_right)
    then have "sim_inv totpages pagesize st'"
      unfolding sim_inv_def st' using len I1 occ U I2 by simp
    then show ?thesis using oc by (simp add: st' occ)
  qed
qed

subsection \<open>Rounding up to pages and the range of the offset\<close>

lemma uint_pagesize:
  assumes "0 < pagesize" "pagesize < 2 ^ 31"
  shows "uint (to_size_t pagesize) = pagesize" and "to_size_t pagesize \<noteq> 0"
    and "uint (to_size_t pagesize - 1) = pagesize - 1"
proof -
  show u: "uint (to_size_t pagesize) = pagesize" using uint_to_size_t [of pagesize] assms by simp
  show nz: "to_size_t pagesize \<noteq> 0" using to_size_t_nonzero [OF assms] .
  have "1 \<le> to_size_t pagesize" using nz by (simp add: word_le_def u assms) (use u assms in linarith)
  then have "uint (to_size_t pagesize - 1) = uint (to_size_t pagesize) - uint (1 :: size_t)"
    by (rule uint_sub_lem [THEN iffD1, OF word_le_def [THEN iffD1]])
  then show "uint (to_size_t pagesize - 1) = pagesize - 1" using u by simp
qed

lemma uint_pages_needed:
  assumes pos: "0 < pagesize" "pagesize < 2 ^ 31"
    and fit: "uint b + pagesize \<le> 2 ^ 64"
  shows "uint ((b + (to_size_t pagesize - 1)) div to_size_t pagesize) =
           (uint b + pagesize - 1) div pagesize"
proof -
  have "uint b + uint (to_size_t pagesize - 1) < 2 ^ LENGTH(64)"
    using fit uint_pagesize(3) [OF pos] by simp
  then have "uint (b + (to_size_t pagesize - 1)) = uint b + uint (to_size_t pagesize - 1)"
    by (simp only: uint_add_lem [THEN iffD1])
  moreover have "uint b + (pagesize - 1) = uint b + pagesize - 1" by simp
  ultimately show ?thesis
    using uint_pagesize [OF pos] by (simp only: uint_div)
qed

lemma pages_needed_covers:
  assumes pos: "0 < pagesize" "pagesize < 2 ^ 31"
    and fit: "uint b + pagesize \<le> 2 ^ 64"
  shows "uint b \<le> uint ((b + (to_size_t pagesize - 1)) div to_size_t pagesize) * pagesize"
proof -
  let ?x = "uint b + pagesize - 1"
  have "?x = ?x div pagesize * pagesize + ?x mod pagesize" by simp
  moreover have "?x mod pagesize < pagesize" using pos(1) by simp
  ultimately have "?x < ?x div pagesize * pagesize + pagesize" by linarith
  then have "uint b \<le> ?x div pagesize * pagesize" by simp
  then show ?thesis using uint_pages_needed [OF pos fit] by simp
qed

lemma pages_needed_range:
  assumes pos: "0 < pagesize" "pagesize < 2 ^ 31"
    and fit: "uint b + pagesize \<le> 2 ^ 64"
    and b: "0 < b" "uint b \<le> uint totpages * pagesize"
  shows "0 < (b + (to_size_t pagesize - 1)) div to_size_t pagesize \<and>
         (b + (to_size_t pagesize - 1)) div to_size_t pagesize \<le> totpages"
proof -
  let ?pn = "(b + (to_size_t pagesize - 1)) div to_size_t pagesize"
  have u: "uint ?pn = (uint b + pagesize - 1) div pagesize" by (rule uint_pages_needed [OF pos fit])
  have "0 < uint b" using b(1) by (simp add: word_less_def)
  then have "pagesize \<le> uint b + pagesize - 1" by simp
  then have "0 < (uint b + pagesize - 1) div pagesize"
    using pos_imp_zdiv_pos_iff [of pagesize "uint b + pagesize - 1"] pos(1) by blast
  then have lo: "0 < uint ?pn" using u by simp
  have lt: "uint b + pagesize - 1 < (uint totpages + 1) * pagesize"
    using b(2) pos(1) by (simp add: distrib_right)
  have "0 \<le> (uint b + pagesize - 1) mod pagesize" using pos(1) by simp
  then have dm: "(uint b + pagesize - 1) div pagesize * pagesize \<le> uint b + pagesize - 1"
    by (simp only: minus_mod_eq_div_mult [symmetric])
  have "\<not> uint totpages + 1 \<le> (uint b + pagesize - 1) div pagesize"
  proof
    assume "uint totpages + 1 \<le> (uint b + pagesize - 1) div pagesize"
    then have "(uint totpages + 1) * pagesize \<le> (uint b + pagesize - 1) div pagesize * pagesize"
      using pos(1) by (intro mult_right_mono) simp_all
    with dm lt show False by linarith
  qed
  then have hi: "uint ?pn \<le> uint totpages" using u by simp
  from lo hi show ?thesis by (simp add: word_less_def word_le_def)
qed

lemma offset_in_range:
  fixes totpages pages_needed x :: size_t
  assumes pn: "0 < pages_needed" "pages_needed \<le> totpages"
  shows "totpages - (pages_needed - 1) \<noteq> 0"
    and "unat (x mod (totpages - (pages_needed - 1))) + unat pages_needed \<le> unat totpages"
    and "x mod (totpages - (pages_needed - 1)) <
           x mod (totpages - (pages_needed - 1)) + pages_needed"
    and "unat (x mod (totpages - (pages_needed - 1)) + pages_needed) =
           unat (x mod (totpages - (pages_needed - 1))) + unat pages_needed"
proof -
  let ?m = "totpages - (pages_needed - 1)"
  have p1: "unat pages_needed \<ge> 1" using pn(1) by (simp add: word_less_nat_alt)
  have "1 \<le> pages_needed" using pn(1) by (simp add: word_le_nat_alt word_less_nat_alt)
  then have u1: "unat (pages_needed - 1) = unat pages_needed - 1" by (simp add: unat_sub)
  have ple: "unat pages_needed \<le> unat totpages" using pn(2) by (simp add: word_le_nat_alt)
  then have "pages_needed - 1 \<le> totpages" using u1 by (simp add: word_le_nat_alt)
  then have um: "unat ?m = unat totpages - (unat pages_needed - 1)" by (simp add: unat_sub u1)
  then have mpos: "0 < unat ?m" using ple p1 by simp
  then show m: "?m \<noteq> 0" by (metis unat_0 less_numeral_extra(3))
  then have "x mod ?m < ?m" by (simp add: word_mod_less_divisor word_greater_zero_iff)
  then have "unat (x mod ?m) < unat ?m" by (simp add: word_less_nat_alt)
  then show le: "unat (x mod ?m) + unat pages_needed \<le> unat totpages" using um ple p1 by simp
  have "unat totpages < 2 ^ LENGTH(64)" using unsigned_less [of totpages] by simp
  with le have "unat (x mod ?m) + unat pages_needed < 2 ^ LENGTH(64)" by simp
  then show eq: "unat (x mod ?m + pages_needed) = unat (x mod ?m) + unat pages_needed"
    by (simp only: unat_add_lem [THEN iffD1])
  then show "x mod ?m < x mod ?m + pages_needed" using p1 by (simp add: word_less_nat_alt)
qed

lemma attempts_no_fault:
  assumes pn: "0 < pages_needed" "pages_needed \<le> totpages"
  shows "length (pages st) = unat totpages \<Longrightarrow>
         attempts rnd totpages pages_needed bytes_needed n st \<noteq> Inl err"
proof (induction n arbitrary: st)
  case 0
  then show ?case by simp
next
  case (Suc n)
  let ?off = "ucast (rnd (calls st)) mod (totpages - (pages_needed - 1)) :: size_t"
  note r = offset_in_range(1) [OF pn] offset_in_range(2-4) [OF pn, of "ucast (rnd (calls st))"]
  have "unat (?off + pages_needed) \<le> length (pages st)" using r(2,4) Suc.prems by simp
  then have nf: "\<And>e. scan_free (pages st) ?off (?off + pages_needed) \<noteq> Inl e"
    by (rule scan_free_in_bounds)
  show ?case
  proof (cases "scan_free (pages st) ?off (?off + pages_needed)")
    case (Inl e)
    then show ?thesis using nf by simp
  next
    case (Inr i)
    then show ?thesis using r(1) Suc.IH [of "st\<lparr>calls := calls st + 1\<rparr>"] Suc.prems
      by (simp add: Let_def)
  qed
qed

lemma attempts_full:
  assumes pn: "0 < pages_needed" "pages_needed \<le> totpages"
    and len: "length (pages st) = unat totpages"
    and full: "\<forall>p\<in>set (pages st). p \<noteq> 0"
  shows "attempts rnd totpages pages_needed bytes_needed n st =
           Inr (Exhausted, st\<lparr>calls := calls st + n\<rparr>)"
  using len full
proof (induction n arbitrary: st)
  case 0
  then show ?case by simp
next
  case (Suc n)
  let ?off = "ucast (rnd (calls st)) mod (totpages - (pages_needed - 1)) :: size_t"
  note r = offset_in_range(1) [OF pn] offset_in_range(2-4) [OF pn, of "ucast (rnd (calls st))"]
  have inb: "unat ?off < length (pages st)" using r(2) pn(1) Suc.prems(1)
    by (simp add: word_less_nat_alt)
  then have "pages st ! unat ?off \<noteq> 0" using Suc.prems(2) by simp
  from scan_free_blocked [OF r(3) inb this]
  have scan: "scan_free (pages st) ?off (?off + pages_needed) = Inr ?off" .
  have ne: "?off \<noteq> ?off + pages_needed" using r(3) by auto
  have "attempts rnd totpages pages_needed bytes_needed (Suc n) st =
        attempts rnd totpages pages_needed bytes_needed n (st\<lparr>calls := calls st + 1\<rparr>)"
    using r(1) scan ne by (simp add: Let_def)
  also have "\<dots> = Inr (Exhausted, st\<lparr>calls := calls st + 1\<rparr>\<lparr>calls := calls (st\<lparr>calls := calls st + 1\<rparr>) + n\<rparr>)"
    using Suc.prems by (intro Suc.IH) simp_all
  finally show ?case by simp
qed

subsection \<open>The invariant along a run\<close>

lemma place_item_inv:
  assumes pos: "0 < pagesize" "pagesize < 2 ^ 31"
    and cap: "uint totpages * pagesize < 2 ^ 64"
    and fit: "\<forall>s\<in>set samples. uint s + pagesize \<le> 2 ^ 64"
    and inv: "sim_inv totpages pagesize st"
    and res: "place_item rnd samples samplesize pagesize totpages st = Inr (oc, st')"
  shows "sim_inv totpages pagesize st' \<and>
         (oc = Exhausted \<longrightarrow> st' = st\<lparr>calls := calls st + 201\<rparr>)"
proof -
  let ?r = "unat (rnd (calls st)) mod nat \<bar>samplesize\<bar>"
  let ?b = "samples ! ?r"
  let ?pn = "(?b + (to_size_t pagesize - 1)) div to_size_t pagesize"
  let ?st1 = "st\<lparr>calls := calls st + 1\<rparr>"
  from res have r: "?r < length samples"
    and att: "attempts rnd totpages ?pn ?b 200 ?st1 = Inr (oc, st')"
    by (auto simp: place_item_def Let_def split: if_splits)
  then have "?b \<in> set samples" by simp
  then have "uint ?b + pagesize \<le> 2 ^ 64" using fit by blast
  from pages_needed_covers [OF pos this] have "uint ?b \<le> uint ?pn * pagesize" .
  from attempts_inv [OF pos(1) cap this _ att] inv show ?thesis by auto
qed

lemma placements_inv:
  assumes pos: "0 < pagesize" "pagesize < 2 ^ 31"
    and cap: "uint totpages * pagesize < 2 ^ 64"
    and fit: "\<forall>s\<in>set samples. uint s + pagesize \<le> 2 ^ 64"
  shows "sim_inv totpages pagesize st \<Longrightarrow>
         placements rnd samples samplesize pagesize totpages n st = Some st' \<Longrightarrow>
         sim_inv totpages pagesize st'"
proof (induction n arbitrary: st)
  case 0
  then show ?case by simp
next
  case (Suc n)
  from Suc.prems(2) obtain st1 where
    p: "place_item rnd samples samplesize pagesize totpages st = Inr (Placed, st1)"
    and rest: "placements rnd samples samplesize pagesize totpages n st1 = Some st'"
    by (auto split: sum.splits outcome.splits)
  from place_item_inv [OF pos cap fit Suc.prems(1) p] have "sim_inv totpages pagesize st1" by simp
  from Suc.IH [OF this rest] show ?case .
qed

lemma fill_pages_inv:
  assumes pos: "0 < pagesize" "pagesize < 2 ^ 31"
    and cap: "uint totpages * pagesize < 2 ^ 64"
    and fit: "\<forall>s\<in>set samples. uint s + pagesize \<le> 2 ^ 64"
    and ret: "fill_pages rnd samples samplesize pagesize totpages st = Some y"
  shows "sim_inv totpages pagesize st \<longrightarrow> (\<forall>st'. y = Inr st' \<longrightarrow> sim_inv totpages pagesize st')"
proof (rule fill_pages.raw_induct [where P = "\<lambda>rnd' samples' samplesize' pagesize' totpages' st y.
     rnd' = rnd \<and> samples' = samples \<and> samplesize' = samplesize \<and> pagesize' = pagesize \<and>
     totpages' = totpages \<longrightarrow>
     sim_inv totpages pagesize st \<longrightarrow> (\<forall>st'. y = Inr st' \<longrightarrow> sim_inv totpages pagesize st')",
     OF _ ret, THEN mp], goal_cases)
  case (1 fill rnd' samples' samplesize' pagesize' totpages' st y)
  show ?case
  proof (intro impI allI)
    fix st'
    assume eqs: "rnd' = rnd \<and> samples' = samples \<and> samplesize' = samplesize \<and>
        pagesize' = pagesize \<and> totpages' = totpages"
      and inv: "sim_inv totpages pagesize st" and y: "y = Inr st'"
    show "sim_inv totpages pagesize st'"
    proof (cases "place_item rnd samples samplesize pagesize totpages st")
      case (Inl e)
      then show ?thesis using 1(2) eqs y by simp
    next
      case (Inr p)
      obtain oc st1 where p: "p = (oc, st1)" by (cases p)
      from place_item_inv [OF pos cap fit inv Inr [unfolded p]] have
        inv1: "sim_inv totpages pagesize st1" by simp
      show ?thesis
      proof (cases oc)
        case Placed
        then have "fill rnd samples samplesize pagesize totpages st1 = Some y"
          using 1(2) eqs Inr p by simp
        from 1(1) [OF this] inv1 y show ?thesis by simp
      next
        case Exhausted
        then have "y = Inr st1" using 1(2) eqs Inr p by simp
        then show ?thesis using inv1 y by simp
      qed
    qed
  qed
qed simp

lemma sim_inv_init: "0 \<le> pagesize \<Longrightarrow> sim_inv totpages pagesize (init_sim totpages k)"
  by (simp add: sim_inv_def init_sim_def occupied_def)

lemma sim_inv_bounds:
  assumes "sim_inv totpages pagesize st"
  shows "uint (stored_bytes st) \<le> uint (used_pages st) * pagesize \<and> used_pages st \<le> totpages"
proof -
  have "unat (used_pages st) \<le> unat totpages"
    using assms occupied_le [of "pages st"] by (simp add: sim_inv_def)
  then show ?thesis using assms by (simp add: sim_inv_def word_le_nat_alt)
qed

subsection \<open>Exhausted tries and termination\<close>

lemma attempts_exhausted:
  "attempts rnd totpages pages_needed bytes_needed n st = Inr (Exhausted, st') \<Longrightarrow>
   st' = st\<lparr>calls := calls st + n\<rparr>"
proof (induction n arbitrary: st)
  case 0
  then show ?case by simp
next
  case (Suc n)
  let ?off = "ucast (rnd (calls st)) mod (totpages - (pages_needed - 1)) :: size_t"
  let ?st1 = "st\<lparr>calls := calls st + 1\<rparr>"
  from Suc.prems have "attempts rnd totpages pages_needed bytes_needed n ?st1 = Inr (Exhausted, st')"
    by (auto simp: Let_def split: if_splits sum.splits)
  from Suc.IH [OF this] show ?case by simp
qed

lemma place_item_exhausted:
  assumes "place_item rnd samples samplesize pagesize totpages st = Inr (Exhausted, st')"
  shows "st' = st\<lparr>calls := calls st + 201\<rparr>"
proof -
  from assms obtain pn b where
    "attempts rnd totpages pn b 200 (st\<lparr>calls := calls st + 1\<rparr>) = Inr (Exhausted, st')"
    by (auto simp: place_item_def Let_def split: if_splits)
  from attempts_exhausted [OF this] show ?thesis by simp
qed

lemma sample_index:
  assumes "0 < samplesize" "int (length samples) = samplesize"
  shows "x mod nat \<bar>samplesize\<bar> < length samples" and "samples ! (x mod nat \<bar>samplesize\<bar>) \<in> set samples"
proof -
  have "nat \<bar>samplesize\<bar> = length samples" using assms by simp
  moreover have "0 < length samples" using assms by auto
  ultimately show "x mod nat \<bar>samplesize\<bar> < length samples" by simp
  then show "samples ! (x mod nat \<bar>samplesize\<bar>) \<in> set samples" by simp
qed

lemma place_item_full:
  assumes pos: "0 < pagesize" "pagesize < 2 ^ 31"
    and n: "0 < samplesize" "int (length samples) = samplesize"
    and range: "\<forall>s\<in>set samples. 0 < s \<and> uint s \<le> uint totpages * pagesize \<and> uint s + pagesize \<le> 2 ^ 64"
    and len: "length (pages st) = unat totpages"
    and full: "\<forall>p\<in>set (pages st). p \<noteq> 0"
  shows "place_item rnd samples samplesize pagesize totpages st =
           Inr (Exhausted, st\<lparr>calls := calls st + 201\<rparr>)"
proof -
  let ?r = "unat (rnd (calls st)) mod nat \<bar>samplesize\<bar>"
  let ?b = "samples ! ?r"
  let ?pn = "(?b + (to_size_t pagesize - 1)) div to_size_t pagesize"
  let ?st1 = "st\<lparr>calls := calls st + 1\<rparr>"
  note idx = sample_index [OF n, of "unat (rnd (calls st))"]
  from range idx(2) have b: "0 < ?b" "uint ?b \<le> uint totpages * pagesize" "uint ?b + pagesize \<le> 2 ^ 64"
    by blast+
  from pages_needed_range [OF pos b(3) b(1) b(2)] have pn: "0 < ?pn" "?pn \<le> totpages" by simp_all
  have "attempts rnd totpages ?pn ?b 200 ?st1 = Inr (Exhausted, ?st1\<lparr>calls := calls ?st1 + 200\<rparr>)"
    using len full by (intro attempts_full [OF pn]) simp_all
  then show ?thesis
    using n(1) idx(1) to_size_t_nonzero [OF pos] by (simp add: place_item_def Let_def)
qed

lemma place_item_progress:
  assumes pos: "0 < pagesize" "pagesize < 2 ^ 31"
    and cap: "uint totpages * pagesize < 2 ^ 64"
    and n: "0 < samplesize" "int (length samples) = samplesize"
    and range: "\<forall>s\<in>set samples. 0 < s \<and> uint s \<le> uint totpages * pagesize \<and> uint s + pagesize \<le> 2 ^ 64"
    and inv: "sim_inv totpages pagesize st"
  shows "\<exists>oc st'. place_item rnd samples samplesize pagesize totpages st = Inr (oc, st') \<and>
           sim_inv totpages pagesize st' \<and>
           (oc = Placed \<longrightarrow> occupied (pages st) < occupied (pages st'))"
proof -
  let ?r = "unat (rnd (calls st)) mod nat \<bar>samplesize\<bar>"
  let ?b = "samples ! ?r"
  let ?pn = "(?b + (to_size_t pagesize - 1)) div to_size_t pagesize"
  let ?st1 = "st\<lparr>calls := calls st + 1\<rparr>"
  note idx = sample_index [OF n, of "unat (rnd (calls st))"]
  from range idx(2) have b: "0 < ?b" "uint ?b \<le> uint totpages * pagesize" "uint ?b + pagesize \<le> 2 ^ 64"
    by blast+
  from pages_needed_range [OF pos b(3) b(1) b(2)] have pn: "0 < ?pn" "?pn \<le> totpages" by simp_all
  have len: "length (pages ?st1) = unat totpages" using inv by (simp add: sim_inv_def)
  have pi: "place_item rnd samples samplesize pagesize totpages st = attempts rnd totpages ?pn ?b 200 ?st1"
    using n(1) idx(1) to_size_t_nonzero [OF pos] by (simp add: place_item_def Let_def)
  obtain oc st' where att: "attempts rnd totpages ?pn ?b 200 ?st1 = Inr (oc, st')"
    using attempts_no_fault [OF pn len, of rnd ?b 200]
    by (cases "attempts rnd totpages ?pn ?b 200 ?st1") auto
  from pages_needed_covers [OF pos b(3)] have cov: "uint ?b \<le> uint ?pn * pagesize" .
  from attempts_inv [OF pos(1) cap cov _ att] inv have
    "sim_inv totpages pagesize st'" and "oc = Placed \<longrightarrow> occupied (pages st') = occupied (pages st) + unat ?pn"
    by simp_all
  moreover have "0 < unat ?pn" using pn(1) by (simp add: word_less_nat_alt)
  ultimately show ?thesis using pi att by auto
qed

lemma fill_pages_terminates:
  assumes pos: "0 < pagesize" "pagesize < 2 ^ 31"
    and cap: "uint totpages * pagesize < 2 ^ 64"
    and n: "0 < samplesize" "int (length samples) = samplesize"
    and range: "\<forall>s\<in>set samples. 0 < s \<and> uint s \<le> uint totpages * pagesize \<and> uint s + pagesize \<le> 2 ^ 64"
  shows "sim_inv totpages pagesize st \<Longrightarrow>
         \<exists>st'. fill_pages rnd samples samplesize pagesize totpages st = Some (Inr st') \<and>
               sim_inv totpages pagesize st'"
proof (induction "unat totpages - occupied (pages st)" arbitrary: st rule: less_induct)
  case less
  from place_item_progress [OF pos cap n range less.prems, of rnd] obtain oc st1 where
    p: "place_item rnd samples samplesize pagesize totpages st = Inr (oc, st1)"
    and inv1: "sim_inv totpages pagesize st1"
    and prog: "oc = Placed \<longrightarrow> occupied (pages st) < occupied (pages st1)" by blast
  show ?case
  proof (cases oc)
    case Exhausted
    then have "fill_pages rnd samples samplesize pagesize totpages st = Some (Inr st1)"
      using p by (subst fill_pages.simps) simp
    then show ?thesis using inv1 by blast
  next
    case Placed
    have "occupied (pages st1) \<le> unat totpages"
      using inv1 occupied_le [of "pages st1"] by (simp add: sim_inv_def)
    then have "unat totpages - occupied (pages st1) < unat totpages - occupied (pages st)"
      using prog Placed by simp
    from less.hyps [OF this inv1] obtain st' where
      "fill_pages rnd samples samplesize pagesize totpages st1 = Some (Inr st')"
      "sim_inv totpages pagesize st'" by blast
    moreover have "fill_pages rnd samples samplesize pagesize totpages st =
          fill_pages rnd samples samplesize pagesize totpages st1"
      using p Placed by (subst fill_pages.simps) simp
    ultimately show ?thesis by simp
  qed
qed

subsection \<open>The candidate loop\<close>

lemma page_sizes_from_8:
  "page_sizes_from 8 =
     [8, 16, 32, 64, 128, 256, 512, 1024, 2048, 4096, 8192, 16384, 32768, 65536]"
  by (simp add: page_sizes_from.simps)

lemma page_sizes_from_range:
  "p \<in> set (page_sizes_from pagesize) \<Longrightarrow> 0 < pagesize \<Longrightarrow> pagesize \<le> p \<and> p \<le> 1024 * 64"
proof (induction pagesize rule: page_sizes_from.induct)
  case (1 pagesize)
  show ?case
  proof (cases "pagesize \<le> 1024 * 64")
    case False
    then show ?thesis using 1(2) by (subst (asm) page_sizes_from.simps) simp
  next
    case True
    then have "p = pagesize \<or> p \<in> set (page_sizes_from (pagesize * 2))"
      using 1(2,3) by (subst (asm) page_sizes_from.simps) simp
    then show ?thesis
    proof
      assume "p = pagesize" then show ?thesis using True by simp
    next
      assume "p \<in> set (page_sizes_from (pagesize * 2))"
      from 1(1) [OF _ this] 1(3) True show ?thesis by simp
    qed
  qed
qed

lemma vmpage_loop_result:
  "vmpage_loop totpages rnd samples samplesize pagesize res = Some (Inr out) \<Longrightarrow> 0 < pagesize \<Longrightarrow>
   \<exists>new. candidates out = candidates res @ new \<and>
     map c_pagesize new = page_sizes_from pagesize \<and>
     (\<forall>c\<in>set new. c_score c = score_of totpages (c_stored_bytes c) (c_pagesize c)) \<and>
     (bestpagesize_of out, bestscore_of out) =
        fold select_candidate new (bestpagesize_of res, bestscore_of res)"
proof (induction "nat (1024 * 64 + 1 - pagesize)" arbitrary: pagesize res rule: less_induct)
  case less
  show ?case
  proof (cases "pagesize \<le> 1024 * 64")
    case False
    then have "out = res" using less.prems(1) by (subst (asm) vmpage_loop.simps) simp
    moreover have "page_sizes_from pagesize = []" using False by (subst page_sizes_from.simps) simp
    ultimately show ?thesis by simp
  next
    case True
    let ?run = "fill_pages rnd samples samplesize pagesize totpages (init_sim totpages (calls_of res))"
    from less.prems(1) True obtain st where run: "?run = Some (Inr st)"
      by (subst (asm) vmpage_loop.simps) (auto split: option.splits sum.splits)
    let ?score = "score_of totpages (stored_bytes st) pagesize"
    let ?c = "\<lparr> c_pagesize = pagesize, c_stored_bytes = stored_bytes st,
                 c_used_pages = used_pages st, c_score = ?score \<rparr>"
    let ?best = "select_best (bestpagesize_of res) (bestscore_of res) pagesize ?score"
    let ?res' = "\<lparr> bestpagesize_of = fst ?best, bestscore_of = snd ?best,
                   candidates = candidates res @ [?c], calls_of = calls st \<rparr>"
    have next_run: "vmpage_loop totpages rnd samples samplesize (pagesize * 2) ?res' = Some (Inr out)"
      using less.prems(1) True run by (subst (asm) vmpage_loop.simps) (simp add: Let_def)
    have "nat (1024 * 64 + 1 - pagesize * 2) < nat (1024 * 64 + 1 - pagesize)"
      using True less.prems(2) by simp
    from less.hyps [OF this next_run] less.prems(2) obtain new where
      new: "candidates out = candidates ?res' @ new"
        "map c_pagesize new = page_sizes_from (pagesize * 2)"
        "\<forall>c\<in>set new. c_score c = score_of totpages (c_stored_bytes c) (c_pagesize c)"
        "(bestpagesize_of out, bestscore_of out) =
           fold select_candidate new (bestpagesize_of ?res', bestscore_of ?res')"
      by auto
    have sizes: "page_sizes_from pagesize = pagesize # page_sizes_from (pagesize * 2)"
      using True less.prems(2) by (subst page_sizes_from.simps) simp
    show ?thesis
    proof (intro exI [of _ "?c # new"] conjI)
      show "candidates out = candidates res @ ?c # new" using new(1) by simp
      show "map c_pagesize (?c # new) = page_sizes_from pagesize" using new(2) sizes by simp
      show "\<forall>c\<in>set (?c # new). c_score c = score_of totpages (c_stored_bytes c) (c_pagesize c)"
        using new(3) by simp
      show "(bestpagesize_of out, bestscore_of out) =
          fold select_candidate (?c # new) (bestpagesize_of res, bestscore_of res)"
        using new(4) by (simp add: select_candidate_def)
    qed
  qed
qed

lemma score_of_real:
  assumes pos: "0 < pagesize" "pagesize < 2 ^ 31"
    and cap: "uint totpages * pagesize < 2 ^ 64"
  shows "score_of totpages stored pagesize =
     (real (unat stored) / real (unat totpages)) *
     ((real (unat stored) * 100) / (real (unat totpages) * real_of_int pagesize))"
proof -
  have "uint totpages * uint (to_size_t pagesize) < 2 ^ LENGTH(64)"
    using cap uint_to_size_t [of pagesize] pos by simp
  then have "uint (totpages * to_size_t pagesize) = uint totpages * uint (to_size_t pagesize)"
    by (simp only: uint_mult_lem [THEN iffD1])
  then have "uint (totpages * to_size_t pagesize) = uint totpages * pagesize"
    using uint_to_size_t [of pagesize] pos by simp
  then have "real_of_int (uint (totpages * to_size_t pagesize)) =
      real_of_int (uint totpages) * real_of_int pagesize" by simp
  then have "real (unat (totpages * to_size_t pagesize)) = real (unat totpages) * real_of_int pagesize"
    by (simp only: uint_nat of_int_of_nat_eq)
  then show ?thesis by (simp only: score_of_def)
qed

lemma vmpage_loop_terminates:
  assumes cap: "uint totpages * (1024 * 64) < 2 ^ 64"
    and n: "0 < samplesize" "int (length samples) = samplesize"
    and range: "\<forall>s\<in>set samples. 0 < s \<and> uint s \<le> uint totpages * 8 \<and> uint s + 1024 * 64 \<le> 2 ^ 64"
  shows "8 \<le> pagesize \<Longrightarrow>
    \<exists>out. vmpage_loop totpages rnd samples samplesize pagesize res = Some (Inr out)"
proof (induction "nat (1024 * 64 + 1 - pagesize)" arbitrary: pagesize res rule: less_induct)
  case less
  show ?case
  proof (cases "pagesize \<le> 1024 * 64")
    case False
    then show ?thesis by (subst vmpage_loop.simps) simp
  next
    case True
    have pos: "0 < pagesize" "pagesize < 2 ^ 31" using less.prems True by simp_all
    have "uint totpages * pagesize \<le> uint totpages * (1024 * 64)"
      using True by (intro mult_left_mono) simp_all
    then have cap': "uint totpages * pagesize < 2 ^ 64" using cap by linarith
    have "uint totpages * 8 \<le> uint totpages * pagesize"
      using less.prems by (intro mult_left_mono) simp_all
    then have range': "\<forall>s\<in>set samples. 0 < s \<and> uint s \<le> uint totpages * pagesize \<and>
        uint s + pagesize \<le> 2 ^ 64"
      using range True by fastforce
    have "sim_inv totpages pagesize (init_sim totpages (calls_of res))"
      using pos(1) by (simp add: sim_inv_init)
    from fill_pages_terminates [OF pos cap' n range' this, of rnd]
    obtain st where
      run: "fill_pages rnd samples samplesize pagesize totpages (init_sim totpages (calls_of res)) =
              Some (Inr st)" by auto
    have "nat (1024 * 64 + 1 - pagesize * 2) < nat (1024 * 64 + 1 - pagesize)"
      using True less.prems by simp
    from less.hyps [OF this] less.prems have
      "\<exists>out. vmpage_loop totpages rnd samples samplesize (pagesize * 2) res' = Some (Inr out)" for res'
      by simp
    then show ?thesis using True run by (subst vmpage_loop.simps) (simp add: Let_def)
  qed
qed

lemma vmpage_loop_bounds:
  assumes cap: "uint totpages * (1024 * 64) < 2 ^ 64"
    and fit: "\<forall>s\<in>set samples. uint s + 1024 * 64 \<le> 2 ^ 64"
  shows "vmpage_loop totpages rnd samples samplesize pagesize res = Some (Inr out) \<Longrightarrow>
    0 < pagesize \<Longrightarrow>
    \<forall>c\<in>set (candidates res). uint (c_stored_bytes c) \<le> uint (c_used_pages c) * c_pagesize c \<and>
        c_used_pages c \<le> totpages \<Longrightarrow>
    \<forall>c\<in>set (candidates out). uint (c_stored_bytes c) \<le> uint (c_used_pages c) * c_pagesize c \<and>
        c_used_pages c \<le> totpages"
proof (induction "nat (1024 * 64 + 1 - pagesize)" arbitrary: pagesize res rule: less_induct)
  case less
  show ?case
  proof (cases "pagesize \<le> 1024 * 64")
    case False
    then have "out = res" using less.prems(1) by (subst (asm) vmpage_loop.simps) simp
    then show ?thesis using less.prems(3) by simp
  next
    case True
    let ?run = "fill_pages rnd samples samplesize pagesize totpages (init_sim totpages (calls_of res))"
    from less.prems(1) True obtain st where run: "?run = Some (Inr st)"
      by (subst (asm) vmpage_loop.simps) (auto split: option.splits sum.splits)
    let ?score = "score_of totpages (stored_bytes st) pagesize"
    let ?c = "\<lparr> c_pagesize = pagesize, c_stored_bytes = stored_bytes st,
                 c_used_pages = used_pages st, c_score = ?score \<rparr>"
    let ?best = "select_best (bestpagesize_of res) (bestscore_of res) pagesize ?score"
    let ?res' = "\<lparr> bestpagesize_of = fst ?best, bestscore_of = snd ?best,
                   candidates = candidates res @ [?c], calls_of = calls st \<rparr>"
    have next_run: "vmpage_loop totpages rnd samples samplesize (pagesize * 2) ?res' = Some (Inr out)"
      using less.prems(1) True run by (subst (asm) vmpage_loop.simps) (simp add: Let_def)
    have pos: "0 < pagesize" "pagesize < 2 ^ 31" using less.prems(2) True by simp_all
    have "uint totpages * pagesize \<le> uint totpages * (1024 * 64)"
      using True by (intro mult_left_mono) simp_all
    then have cap': "uint totpages * pagesize < 2 ^ 64" using cap by linarith
    have fit': "\<forall>s\<in>set samples. uint s + pagesize \<le> 2 ^ 64" using fit True by fastforce
    have "sim_inv totpages pagesize (init_sim totpages (calls_of res))"
      using pos(1) by (simp add: sim_inv_init)
    with fill_pages_inv [OF pos cap' fit' run] have "sim_inv totpages pagesize st" by simp
    from sim_inv_bounds [OF this] have bst: "uint (stored_bytes st) \<le> uint (used_pages st) * pagesize \<and>
       used_pages st \<le> totpages" .
    have B': "\<forall>c\<in>set (candidates ?res'). uint (c_stored_bytes c) \<le> uint (c_used_pages c) * c_pagesize c \<and>
        c_used_pages c \<le> totpages"
    proof
      fix c assume "c \<in> set (candidates ?res')"
      then have "c \<in> set (candidates res) \<or> c = ?c" by auto
      then show "uint (c_stored_bytes c) \<le> uint (c_used_pages c) * c_pagesize c \<and>
        c_used_pages c \<le> totpages"
        using less.prems(3) bst by auto
    qed
    have m: "nat (1024 * 64 + 1 - pagesize * 2) < nat (1024 * 64 + 1 - pagesize)"
      using True less.prems(2) by simp
    have p2: "0 < pagesize * 2" using less.prems(2) by simp
    from less.hyps [OF m next_run p2 B'] show ?thesis .
  qed
qed

lemma VMPAGE_PAGES_cap: "uint VMPAGE_PAGES = 1000000 \<and> uint VMPAGE_PAGES * (1024 * 64) < 2 ^ 64"
  by (simp add: VMPAGE_PAGES_def)

subsection \<open>Claim C2: the selection of the best page size\<close>

text \<open>
  C2. The first candidate processed (the best page size is still 0) becomes the best
  whatever its score; afterwards a candidate replaces the best if and only if its score is
  strictly greater, so that an equal score keeps the earlier candidate. Once a candidate
  with a page size other than 0 has been processed the best page size is not 0 any more.
  The best page size and score returned by the loop are this selection applied to the
  candidates in the order tested.
\<close>

theorem select_best_strict:
  "select_best 0 bestscore pagesize score = (pagesize, score) \<and>
   (bestpagesize \<noteq> 0 \<longrightarrow>
      select_best bestpagesize bestscore pagesize score =
        (if bestscore < score then (pagesize, score) else (bestpagesize, bestscore))) \<and>
   (pagesize \<noteq> 0 \<longrightarrow> fst (select_best bestpagesize bestscore pagesize score) \<noteq> 0) \<and>
   (vmpage_loop totpages rnd samples samplesize 8 vmpage_start = Some (Inr out) \<longrightarrow>
      (bestpagesize_of out, bestscore_of out) = fold select_candidate (candidates out) (0, 0))"
proof (intro conjI impI)
  show "select_best 0 bestscore pagesize score = (pagesize, score)" by (simp add: select_best_def)
  show "select_best bestpagesize bestscore pagesize score =
        (if bestscore < score then (pagesize, score) else (bestpagesize, bestscore))"
    if "bestpagesize \<noteq> 0" using that by (simp add: select_best_def)
  show "fst (select_best bestpagesize bestscore pagesize score) \<noteq> 0"
    if "pagesize \<noteq> 0" using that by (auto simp: select_best_def)
  assume ret: "vmpage_loop totpages rnd samples samplesize 8 vmpage_start = Some (Inr out)"
  from vmpage_loop_result [OF ret] show
    "(bestpagesize_of out, bestscore_of out) = fold select_candidate (candidates out) (0, 0)"
    by (auto simp: vmpage_start_def)
qed

theorem select_best_strict_witness:
  "select_best 0 0 8 0 = (8, 0) \<and>
   select_best 8 5.0 16 5.0 = (8, 5.0) \<and>
   select_best 8 5.0 16 5.1 = (16, 5.1) \<and>
   (\<exists>out. vmpage_loop 1 (\<lambda>k. 0) [8] 1 8 vmpage_start = Some (Inr out) \<and>
      (bestpagesize_of out, bestscore_of out) = fold select_candidate (candidates out) (0, 0))"
proof -
  have "\<exists>res. vmpage_loop 1 (\<lambda>k. 0) [8] 1 8 vmpage_start = Some (Inr res)"
    using vmpage_loop_terminates [of 1 1 "[8]" 8 "\<lambda>k. 0" vmpage_start] by simp
  then obtain out where out: "vmpage_loop 1 (\<lambda>k. 0) [8] 1 8 vmpage_start = Some (Inr out)" by blast
  show ?thesis
    using select_best_strict [of 0 8 0 8 1 "\<lambda>k. 0" "[8]" 1 out]
      select_best_strict [of "5.0" 16 "5.0" 8 1 "\<lambda>k. 0" "[8]" 1 out]
      select_best_strict [of "5.0" 16 "5.1" 8 1 "\<lambda>k. 0" "[8]" 1 out] out
    by auto
qed

subsection \<open>Claim C3: the candidate page sizes and the score\<close>

text \<open>
  C3. A run of the simulator that returns has tested exactly the page sizes
  8, 16, 32, ..., 65536 in this order, and the score recorded for each candidate is
  \<open>(storedBytes / totpages) * (storedBytes * 100 / (totpages * pageSize))\<close> in real
  arithmetic; the run does return when the sample sizes are between 1 and 8 times the number
  of pages. This holds for every number of pages whose product with 65536 is below \<open>2^64\<close>,
  among them \<^verbatim>\<open>VMPAGE_PAGES\<close> = 1000000.
\<close>

theorem vmpage_loop_candidates:
  assumes cap: "uint totpages * (1024 * 64) < 2 ^ 64"
  shows "(vmpage_loop totpages rnd samples samplesize 8 vmpage_start = Some (Inr out) \<longrightarrow>
            map c_pagesize (candidates out) =
              [8, 16, 32, 64, 128, 256, 512, 1024, 2048, 4096, 8192, 16384, 32768, 65536] \<and>
            (\<forall>c\<in>set (candidates out).
               c_score c =
                 (real (unat (c_stored_bytes c)) / real (unat totpages)) *
                 ((real (unat (c_stored_bytes c)) * 100) /
                    (real (unat totpages) * real_of_int (c_pagesize c))))) \<and>
         (0 < samplesize \<and> int (length samples) = samplesize \<and>
          (\<forall>s\<in>set samples. 0 < s \<and> uint s \<le> uint totpages * 8 \<and> uint s + 1024 * 64 \<le> 2 ^ 64) \<longrightarrow>
            (\<exists>res. vmpage_loop totpages rnd samples samplesize 8 vmpage_start = Some (Inr res))) \<and>
         uint VMPAGE_PAGES = 1000000 \<and> uint VMPAGE_PAGES * (1024 * 64) < 2 ^ 64"
proof (intro conjI impI)
  assume ret: "vmpage_loop totpages rnd samples samplesize 8 vmpage_start = Some (Inr out)"
  from vmpage_loop_result [OF ret] obtain new where
    new: "candidates out = candidates vmpage_start @ new" "map c_pagesize new = page_sizes_from 8"
      "\<forall>c\<in>set new. c_score c = score_of totpages (c_stored_bytes c) (c_pagesize c)" by auto
  then have cs: "candidates out = new" by (simp add: vmpage_start_def)
  show "map c_pagesize (candidates out) =
      [8, 16, 32, 64, 128, 256, 512, 1024, 2048, 4096, 8192, 16384, 32768, 65536]"
    using new(2) cs by (simp only: page_sizes_from_8)
  show "\<forall>c\<in>set (candidates out).
       c_score c =
         (real (unat (c_stored_bytes c)) / real (unat totpages)) *
         ((real (unat (c_stored_bytes c)) * 100) /
            (real (unat totpages) * real_of_int (c_pagesize c)))"
  proof
    fix c assume c: "c \<in> set (candidates out)"
    then have "c_pagesize c \<in> set (page_sizes_from 8)" using new(2) cs by (metis image_eqI set_map)
    from page_sizes_from_range [OF this] have r: "8 \<le> c_pagesize c" "c_pagesize c \<le> 1024 * 64"
      by simp_all
    then have pos: "0 < c_pagesize c" "c_pagesize c < 2 ^ 31" by simp_all
    have "uint totpages * c_pagesize c \<le> uint totpages * (1024 * 64)"
      using r(2) by (intro mult_left_mono) simp_all
    then have "uint totpages * c_pagesize c < 2 ^ 64" using cap by linarith
    from score_of_real [OF pos this] new(3) c cs show "c_score c =
         (real (unat (c_stored_bytes c)) / real (unat totpages)) *
         ((real (unat (c_stored_bytes c)) * 100) /
            (real (unat totpages) * real_of_int (c_pagesize c)))" by simp
  qed
next
  assume "0 < samplesize \<and> int (length samples) = samplesize \<and>
          (\<forall>s\<in>set samples. 0 < s \<and> uint s \<le> uint totpages * 8 \<and> uint s + 1024 * 64 \<le> 2 ^ 64)"
  then show "\<exists>res. vmpage_loop totpages rnd samples samplesize 8 vmpage_start = Some (Inr res)"
    using vmpage_loop_terminates [OF cap, of samplesize samples 8 rnd vmpage_start] by simp
next
  show "uint VMPAGE_PAGES = 1000000" "uint VMPAGE_PAGES * (1024 * 64) < 2 ^ 64"
    using VMPAGE_PAGES_cap by simp_all
qed

theorem vmpage_loop_candidates_witness:
  "\<exists>out. vmpage_loop 1 (\<lambda>k. 0) [8] 1 8 vmpage_start = Some (Inr out) \<and>
      map c_pagesize (candidates out) =
        [8, 16, 32, 64, 128, 256, 512, 1024, 2048, 4096, 8192, 16384, 32768, 65536] \<and>
      list_all (\<lambda>c. c_score c = (real (unat (c_stored_bytes c)) / 1) *
                 ((real (unat (c_stored_bytes c)) * 100) / (1 * real_of_int (c_pagesize c))))
        (candidates out)"
proof -
  note inst = vmpage_loop_candidates [of 1 "\<lambda>k. 0" "[8]" 1]
  have "\<exists>res. vmpage_loop 1 (\<lambda>k. 0) [8] 1 8 vmpage_start = Some (Inr res)"
    using inst by simp
  then obtain out where out: "vmpage_loop 1 (\<lambda>k. 0) [8] 1 8 vmpage_start = Some (Inr out)" by blast
  show ?thesis using inst [of out] out by (auto simp: list_all_iff)
qed

subsection \<open>The totals along a run that stays inside the table\<close>

text \<open>
  As long as the rounding up to pages does not wrap around (\<open>s + pageSize \<le> 2^64\<close>), the
  totals of every state reached by accepted placements, of the final state of a run and of
  the line recorded for a candidate satisfy \<open>storedBytes \<le> usedPages * pageSize\<close> and
  \<open>usedPages \<le> totpages\<close>. A run that reads outside the table or divides by zero has
  no such state: it ends with the error.
\<close>

lemma fill_pages_bounds:
  assumes pos: "0 < pagesize" "pagesize < 2 ^ 31"
    and cap: "uint totpages * pagesize < 2 ^ 64"
    and fit: "\<forall>s\<in>set samples. uint s + pagesize \<le> 2 ^ 64"
  shows "(\<forall>n st. placements rnd samples samplesize pagesize totpages n (init_sim totpages k) = Some st \<longrightarrow>
            uint (stored_bytes st) \<le> uint (used_pages st) * pagesize \<and> used_pages st \<le> totpages) \<and>
         (\<forall>st. fill_pages rnd samples samplesize pagesize totpages (init_sim totpages k) = Some (Inr st) \<longrightarrow>
            uint (stored_bytes st) \<le> uint (used_pages st) * pagesize \<and> used_pages st \<le> totpages) \<and>
         (uint totpages * (1024 * 64) < 2 ^ 64 \<and> (\<forall>s\<in>set samples. uint s + 1024 * 64 \<le> 2 ^ 64) \<and>
          vmpage_loop totpages rnd samples samplesize 8 vmpage_start = Some (Inr out) \<longrightarrow>
            (\<forall>c\<in>set (candidates out).
               uint (c_stored_bytes c) \<le> uint (c_used_pages c) * c_pagesize c \<and>
               c_used_pages c \<le> totpages))"
proof -
  have i0: "sim_inv totpages pagesize (init_sim totpages k)" using pos(1) by (simp add: sim_inv_init)
  have a: "\<forall>n st. placements rnd samples samplesize pagesize totpages n (init_sim totpages k) = Some st \<longrightarrow>
            uint (stored_bytes st) \<le> uint (used_pages st) * pagesize \<and> used_pages st \<le> totpages"
    using placements_inv [OF pos cap fit i0] sim_inv_bounds by blast
  have b: "\<forall>st. fill_pages rnd samples samplesize pagesize totpages (init_sim totpages k) = Some (Inr st) \<longrightarrow>
            uint (stored_bytes st) \<le> uint (used_pages st) * pagesize \<and> used_pages st \<le> totpages"
    using fill_pages_inv [OF pos cap fit] i0 sim_inv_bounds by blast
  have c: "\<forall>c\<in>set (candidates out).
               uint (c_stored_bytes c) \<le> uint (c_used_pages c) * c_pagesize c \<and>
               c_used_pages c \<le> totpages"
    if "uint totpages * (1024 * 64) < 2 ^ 64" "\<forall>s\<in>set samples. uint s + 1024 * 64 \<le> 2 ^ 64"
       "vmpage_loop totpages rnd samples samplesize 8 vmpage_start = Some (Inr out)"
    using vmpage_loop_bounds [OF that(1,2) that(3)] by (simp add: vmpage_start_def)
  from a b c show ?thesis by blast
qed

text \<open>
  When the tries of an item run out, the run returns the state it had; a full table makes
  every try fail for an item that needs between 1 and \<open>totpages\<close> pages.
\<close>

lemma fill_pages_exhausted:
  "(place_item rnd samples samplesize pagesize totpages st = Inr (Exhausted, st') \<longrightarrow>
      fill_pages rnd samples samplesize pagesize totpages st = Some (Inr st') \<and>
      pages st' = pages st \<and> used_pages st' = used_pages st \<and>
      stored_bytes st' = stored_bytes st) \<and>
   (0 < pagesize \<and> pagesize < 2 ^ 31 \<and> 0 < samplesize \<and> int (length samples) = samplesize \<and>
    (\<forall>s\<in>set samples. 0 < s \<and> uint s \<le> uint totpages * pagesize \<and> uint s + pagesize \<le> 2 ^ 64) \<and>
    length (pages st) = unat totpages \<and> (\<forall>p\<in>set (pages st). p \<noteq> 0) \<longrightarrow>
      place_item rnd samples samplesize pagesize totpages st =
        Inr (Exhausted, st\<lparr>calls := calls st + 201\<rparr>) \<and>
      fill_pages rnd samples samplesize pagesize totpages st =
        Some (Inr (st\<lparr>calls := calls st + 201\<rparr>)))"
proof (intro conjI impI)
  assume p: "place_item rnd samples samplesize pagesize totpages st = Inr (Exhausted, st')"
  then show "fill_pages rnd samples samplesize pagesize totpages st = Some (Inr st')"
    by (subst fill_pages.simps) simp
  from place_item_exhausted [OF p]
  show "pages st' = pages st" "used_pages st' = used_pages st" "stored_bytes st' = stored_bytes st"
    by simp_all
next
  assume h: "0 < pagesize \<and> pagesize < 2 ^ 31 \<and> 0 < samplesize \<and> int (length samples) = samplesize \<and>
    (\<forall>s\<in>set samples. 0 < s \<and> uint s \<le> uint totpages * pagesize \<and> uint s + pagesize \<le> 2 ^ 64) \<and>
    length (pages st) = unat totpages \<and> (\<forall>p\<in>set (pages st). p \<noteq> 0)"
  then have p: "place_item rnd samples samplesize pagesize totpages st =
        Inr (Exhausted, st\<lparr>calls := calls st + 201\<rparr>)"
    by (intro place_item_full) blast+
  then show "place_item rnd samples samplesize pagesize totpages st =
        Inr (Exhausted, st\<lparr>calls := calls st + 201\<rparr>)" .
  from p show "fill_pages rnd samples samplesize pagesize totpages st =
        Some (Inr (st\<lparr>calls := calls st + 201\<rparr>))"
    by (subst fill_pages.simps) simp
qed

subsection \<open>The first try\<close>

lemma attempts_first:
  "attempts rnd totpages pages_needed bytes_needed 200 st =
     (if totpages - (pages_needed - 1) = 0 then Inl DivideByZero
      else
        let off = ucast (rnd (calls st)) mod (totpages - (pages_needed - 1));
            st = st\<lparr>calls := calls st + 1\<rparr>
        in case scan_free (pages st) off (off + pages_needed) of
             Inl e \<Rightarrow> Inl e
           | Inr i \<Rightarrow>
               if i = off + pages_needed
               then Inr (Placed,
                      st\<lparr>pages := memset (pages st) (unat off) 1 (unat pages_needed),
                         used_pages := used_pages st + pages_needed,
                         stored_bytes := stored_bytes st + bytes_needed\<rparr>)
               else attempts rnd totpages pages_needed bytes_needed 199 st)"
proof -
  have "(200::nat) = Suc 199" by simp
  then show ?thesis by (simp only: attempts.simps)
qed

text \<open>
  A sample of \<open>2^64 - 1\<close> bytes with pages of 8 bytes: \<open>bytes_needed + 7\<close> wraps around
  to 6, no page is needed, the placement is accepted at once and \<open>stored_bytes\<close> exceeds
  \<open>used_pages * 8 = 0\<close>.
\<close>

lemma place_item_rounding_wraps:
  "placements (\<lambda>k. 0) [0xFFFFFFFFFFFFFFFF] 1 8 VMPAGE_PAGES 1 (init_sim VMPAGE_PAGES 0) =
     Some \<lparr>pages = replicate (unat VMPAGE_PAGES) 0, used_pages = 0,
            stored_bytes = 0xFFFFFFFFFFFFFFFF, calls = 2\<rparr> \<and>
   (0 :: size_t) < 0xFFFFFFFFFFFFFFFF \<and>
   \<not> uint (0xFFFFFFFFFFFFFFFF :: size_t) \<le> uint (0 :: size_t) * 8"
proof -
  have scan: "scan_free pgs 0 0 = Inr 0" for pgs by (subst scan_free.simps) simp
  have "place_item (\<lambda>k. 0) [0xFFFFFFFFFFFFFFFF] 1 8 VMPAGE_PAGES (init_sim VMPAGE_PAGES 0) =
     Inr (Placed, \<lparr>pages = replicate (unat VMPAGE_PAGES) 0, used_pages = 0,
            stored_bytes = 0xFFFFFFFFFFFFFFFF, calls = 2\<rparr>)"
    by (simp add: place_item_def attempts_first to_size_t_def VMPAGE_PAGES_def init_sim_def
          Let_def scan memset_def)
  then show ?thesis unfolding One_nat_def by simp
qed

subsection \<open>An item larger than the table\<close>

lemma scan_free_zero_table:
  "\<forall>p\<in>set pgs. p = 0 \<Longrightarrow> length pgs < unat e \<Longrightarrow> i < e \<Longrightarrow>
   scan_free pgs i e = Inl OutOfBounds"
proof (induction pgs i e rule: scan_free.induct)
  case (1 pgs i e)
  show ?case
  proof (cases "length pgs \<le> unat i")
    case True
    then show ?thesis using 1(4) by (subst scan_free.simps) simp
  next
    case False
    then have z: "\<not> pgs ! unat i \<noteq> 0" using 1(2) by simp
    have u: "unat (i + 1) = Suc (unat i)" using unat_succ_less [OF 1(4)] .
    then have "unat (i + 1) < unat e" using False 1(3) by simp
    then have lt: "i + 1 < e" by (simp add: word_less_nat_alt)
    have "scan_free pgs i e = scan_free pgs (i + 1) e"
      using 1(4) False z by (subst scan_free.simps) simp
    also have "\<dots> = Inl OutOfBounds" using 1(1) [OF 1(4) False z 1(2) 1(3) lt] .
    finally show ?thesis .
  qed
qed

lemma unat_offset_bound:
  fixes w :: "31 word" and m :: size_t
  shows "unat (ucast w mod m) < 2 ^ 31"
proof -
  have "unat (ucast w :: size_t) = unat w" by (simp add: unsigned_ucast_eq take_bit_nat_eq_self
        less_trans [OF unsigned_less])
  moreover have "unat w < 2 ^ 31" using unsigned_less [of w] by simp
  moreover have "unat (ucast w mod m) \<le> unat (ucast w :: size_t)" by (simp add: unat_mod)
  ultimately show ?thesis by simp
qed

lemma attempts_oversize:
  assumes zero: "\<forall>p\<in>set (pages st). p = 0"
    and len: "length (pages st) = unat totpages"
    and big: "totpages < pages_needed"
    and nz: "totpages - (pages_needed - 1) \<noteq> 0"
    and fit: "unat pages_needed + 2 ^ 31 \<le> 2 ^ 64"
  shows "attempts rnd totpages pages_needed bytes_needed (Suc n) st = Inl OutOfBounds"
proof -
  let ?off = "ucast (rnd (calls st)) mod (totpages - (pages_needed - 1)) :: size_t"
  have ob: "unat ?off < 2 ^ 31" by (rule unat_offset_bound)
  then have "unat ?off + unat pages_needed < 2 ^ LENGTH(64)" using fit by simp
  then have ue: "unat (?off + pages_needed) = unat ?off + unat pages_needed"
    by (simp only: unat_add_lem [THEN iffD1])
  have pn: "unat totpages < unat pages_needed" using big by (simp add: word_less_nat_alt)
  then have lt: "?off < ?off + pages_needed" using ue by (simp add: word_less_nat_alt)
  have "length (pages st) < unat (?off + pages_needed)" using ue pn len by simp
  from scan_free_zero_table [OF zero this lt]
  show ?thesis using nz by (simp add: Let_def)
qed

lemma attempts_200: "attempts rnd totpages pages_needed bytes_needed 200 st =
   attempts rnd totpages pages_needed bytes_needed (Suc 199) st"
  by simp

subsection \<open>Claim C4: the totals never exceed the pages used\<close>

text \<open>
  C4 (the code at the failing input). A sampled size of 8000009 bytes needs 1000002 pages
  of 8 bytes, two more than the table has. The modulus \<^verbatim>\<open>totpages-(pages_needed-1)\<close>
  wraps around to \<open>2^64 - 1\<close>, the offset is not reduced, and on the fresh table the first
  try scans zero entries up to \<^verbatim>\<open>pages[1000000]\<close>, beyond the last entry, whatever the
  random stream: the run of the candidate, and with it the whole loop, ends there.
\<close>

theorem fill_pages_oversize_item:
  "place_item rnd [8000009] 1 8 VMPAGE_PAGES (init_sim VMPAGE_PAGES k) = Inl OutOfBounds \<and>
   fill_pages rnd [8000009] 1 8 VMPAGE_PAGES (init_sim VMPAGE_PAGES k) = Some (Inl OutOfBounds) \<and>
   vmpage_loop VMPAGE_PAGES rnd [8000009] 1 8 vmpage_start = Some (Inl OutOfBounds) \<and>
   ((8000009 :: size_t) + (to_size_t 8 - 1)) div to_size_t 8 = 1000002 \<and>
   VMPAGE_PAGES < 1000002"
proof -
  have pn: "((8000009 :: size_t) + (to_size_t 8 - 1)) div to_size_t 8 = 1000002"
    by (simp add: to_size_t_def)
  have lt: "VMPAGE_PAGES < 1000002" by (simp add: VMPAGE_PAGES_def)
  have att: "attempts rnd VMPAGE_PAGES 1000002 8000009 200 st = Inl OutOfBounds"
    if "\<forall>p\<in>set (pages st). p = 0" "length (pages st) = unat VMPAGE_PAGES" for st
    unfolding attempts_200
    by (rule attempts_oversize [OF that lt]) (simp_all add: VMPAGE_PAGES_def)
  have p: "place_item rnd [8000009] 1 8 VMPAGE_PAGES (init_sim VMPAGE_PAGES k) = Inl OutOfBounds" for k
    unfolding place_item_def Let_def pn
    using att [of "init_sim VMPAGE_PAGES k\<lparr>calls := calls (init_sim VMPAGE_PAGES k) + 1\<rparr>"]
    by (simp add: init_sim_def to_size_t_def)
  have f: "fill_pages rnd [8000009] 1 8 VMPAGE_PAGES (init_sim VMPAGE_PAGES k) = Some (Inl OutOfBounds)" for k
    by (subst fill_pages.simps) (simp add: p)
  have v: "vmpage_loop VMPAGE_PAGES rnd [8000009] 1 8 vmpage_start = Some (Inl OutOfBounds)"
    by (subst vmpage_loop.simps) (simp add: f)
  from p f v pn lt show ?thesis by blast
qed

subsection \<open>A run that fills the table\<close>

lemma filled_0: "filled totpages 0 = init_sim totpages 0"
  by (simp add: filled_def init_sim_def)

lemma scan_one_free:
  fixes i :: size_t
  assumes "unat i < length pgs" "pgs ! unat i = 0" "i < i + 1"
  shows "scan_free pgs i (i + 1) = Inr (i + 1)"
proof -
  have "scan_free pgs i (i + 1) = scan_free pgs (i + 1) (i + 1)"
    using assms by (subst scan_free.simps) simp
  also have "\<dots> = Inr (i + 1)" by (subst scan_free.simps) simp
  finally show ?thesis .
qed

lemma place_item_fills:
  assumes i: "i < 1000000"
  shows "place_item (filling_stream 1000000) [8, 8000008] 2 8 VMPAGE_PAGES (filled VMPAGE_PAGES i) =
           Inr (Placed, filled VMPAGE_PAGES (Suc i))"
proof -
  let ?st1 = "filled VMPAGE_PAGES i\<lparr>calls := calls (filled VMPAGE_PAGES i) + 1\<rparr>"
  have r: "filling_stream 1000000 (2 * i) = 0" using i by (simp add: filling_stream_def)
  have o: "filling_stream 1000000 (Suc (2 * i)) = of_nat i" using i by (simp add: filling_stream_def)
  have pn: "((8 :: size_t) + (to_size_t 8 - 1)) div to_size_t 8 = 1" by (simp add: to_size_t_def)
  have ui: "unat (of_nat i :: size_t) = i" using i by (simp add: unat_of_nat take_bit_nat_eq_self)
  have "(ucast (of_nat i :: 31 word) :: size_t) = of_nat i"
    using i by (simp add: unat_of_nat take_bit_nat_eq_self word_unat_eq_iff unsigned_ucast_eq)
  moreover have "(of_nat i :: size_t) mod 1000000 = of_nat i"
    using i ui by (simp add: word_unat_eq_iff unat_mod)
  ultimately have off: "ucast (filling_stream 1000000 (Suc (2 * i))) mod (VMPAGE_PAGES - (1 - 1)) = (of_nat i :: size_t)"
    by (simp add: o VMPAGE_PAGES_def)
  have lt: "(of_nat i :: size_t) < of_nat i + 1"
    using i ui by (simp add: word_less_nat_alt unat_word_ariths)
  have scan: "scan_free (pages ?st1) (of_nat i) (of_nat i + 1) = Inr (of_nat i + 1)"
    using i ui lt by (intro scan_one_free) (simp_all add: filled_def VMPAGE_PAGES_def nth_append)
  have mem: "memset (pages ?st1) i 1 (unat (1 :: size_t)) =
               replicate (Suc i) 1 @ replicate (unat VMPAGE_PAGES - Suc i) 0"
    using i by (simp add: memset_def filled_def VMPAGE_PAGES_def replicate_append_same)
  have att: "attempts (filling_stream 1000000) VMPAGE_PAGES 1 8 200 ?st1 =
      Inr (Placed, filled VMPAGE_PAGES (Suc i))"
    using off scan mem ui
    by (simp add: attempts_first Let_def VMPAGE_PAGES_def filled_def)
  show ?thesis
    unfolding place_item_def Let_def
    using att r by (simp add: filled_def to_size_t_def pn [unfolded to_size_t_def])
qed

lemma place_item_crashes:
  "place_item (filling_stream 1000000) [8, 8000008] 2 8 VMPAGE_PAGES (filled VMPAGE_PAGES 1000000) =
     Inl DivideByZero"
proof -
  have r: "filling_stream 1000000 2000000 = 1" by (simp add: filling_stream_def)
  show ?thesis
    unfolding place_item_def Let_def
    by (simp add: filled_def r to_size_t_def attempts_first VMPAGE_PAGES_def)
qed

lemma fill_pages_crashes:
  "i \<le> 1000000 \<Longrightarrow>
   fill_pages (filling_stream 1000000) [8, 8000008] 2 8 VMPAGE_PAGES (filled VMPAGE_PAGES i) =
     Some (Inl DivideByZero)"
proof (induction "1000000 - i" arbitrary: i)
  case 0
  then have "i = 1000000" by simp
  then show ?case by (subst fill_pages.simps) (simp add: place_item_crashes)
next
  case (Suc d)
  then have i: "i < 1000000" by simp
  have "fill_pages (filling_stream 1000000) [8, 8000008] 2 8 VMPAGE_PAGES (filled VMPAGE_PAGES i) =
        fill_pages (filling_stream 1000000) [8, 8000008] 2 8 VMPAGE_PAGES (filled VMPAGE_PAGES (Suc i))"
    by (subst fill_pages.simps) (simp add: place_item_fills [OF i])
  also have "\<dots> = Some (Inl DivideByZero)" using Suc.hyps(2) i by (intro Suc.hyps(1)) simp_all
  finally show ?case .
qed

subsection \<open>Claim C5: running out of tries ends the candidate's simulation\<close>

text \<open>
  C5 (the code at the failing input). With the sampled sizes 8 and 8000008 and pages of
  8 bytes, the random stream \<open>filling_stream 1000000\<close> places 1000000 items of 8 bytes
  at the offsets 0, 1, 2, ... and fills the table; the next item drawn needs 1000001 pages,
  the modulus \<^verbatim>\<open>totpages-(pages_needed-1)\<close> is 0 and the first try divides by zero: on a
  full table the run ends with this error instead of returning its totals.
\<close>

theorem fill_pages_full_table_crash:
  "placements (filling_stream 1000000) [8, 8000008] 2 8 VMPAGE_PAGES 1000000 (init_sim VMPAGE_PAGES 0) =
     Some (filled VMPAGE_PAGES 1000000) \<and>
   pages (filled VMPAGE_PAGES 1000000) = replicate 1000000 1 \<and>
   used_pages (filled VMPAGE_PAGES 1000000) = 1000000 \<and>
   stored_bytes (filled VMPAGE_PAGES 1000000) = 8000000 \<and>
   ((8000008 :: size_t) + (to_size_t 8 - 1)) div to_size_t 8 = 1000001 \<and>
   VMPAGE_PAGES - (1000001 - 1) = 0 \<and>
   place_item (filling_stream 1000000) [8, 8000008] 2 8 VMPAGE_PAGES (filled VMPAGE_PAGES 1000000) =
     Inl DivideByZero \<and>
   fill_pages (filling_stream 1000000) [8, 8000008] 2 8 VMPAGE_PAGES (init_sim VMPAGE_PAGES 0) =
     Some (Inl DivideByZero)"
proof -
  have reach: "placements (filling_stream 1000000) [8, 8000008] 2 8 VMPAGE_PAGES n (filled VMPAGE_PAGES i) =
      Some (filled VMPAGE_PAGES (i + n))" if "i + n \<le> 1000000" for i n
    using that
  proof (induction n arbitrary: i)
    case 0
    then show ?case by simp
  next
    case (Suc n)
    then have "i < 1000000" by simp
    from place_item_fills [OF this] Suc.IH [of "Suc i"] Suc.prems show ?case by simp
  qed
  have a: "placements (filling_stream 1000000) [8, 8000008] 2 8 VMPAGE_PAGES 1000000 (init_sim VMPAGE_PAGES 0) =
     Some (filled VMPAGE_PAGES 1000000)"
    using reach [of 0 1000000] by (simp add: filled_0)
  have b: "pages (filled VMPAGE_PAGES 1000000) = replicate 1000000 1"
    by (simp add: filled_def VMPAGE_PAGES_def)
  have d: "fill_pages (filling_stream 1000000) [8, 8000008] 2 8 VMPAGE_PAGES (init_sim VMPAGE_PAGES 0) =
     Some (Inl DivideByZero)"
    using fill_pages_crashes [of 0] by (simp add: filled_0)
  have c: "used_pages (filled VMPAGE_PAGES 1000000) = 1000000"
    "stored_bytes (filled VMPAGE_PAGES 1000000) = 8000000"
    by (simp_all add: filled_def)
  have e: "((8000008 :: size_t) + (to_size_t 8 - 1)) div to_size_t 8 = 1000001"
    "VMPAGE_PAGES - (1000001 - 1) = 0"
    by (simp_all add: to_size_t_def VMPAGE_PAGES_def)
  from a b c e place_item_crashes d show ?thesis by blast
qed

end
